theory Spec2Isabelle
  imports Main "HOL-Library.Char_ord" "HOL-Library.List_Lexorder" "HOL-Library.Multiset"
begin

section \<open>The nested set model of frappe/utils/nestedset.py\<close>

subsection \<open>The table of a tree DocType\<close>

text \<open>
  One row of the table \<^verbatim>\<open>tab{doctype}\<close>. Only the columns that nestedset.py reads or
  writes are kept: the primary key \<^verbatim>\<open>name\<close>, the parent link (a nullable column, NULL is
  \<open>None\<close>), the \<^verbatim>\<open>old_parent\<close> column, the two integer columns \<^verbatim>\<open>lft\<close> and \<^verbatim>\<open>rgt\<close> (a
  bound that was never assigned is stored as 0, which \<^verbatim>\<open>not doc.lft\<close> treats like None)
  and \<^verbatim>\<open>modified\<close>. The table is the list of its rows in storage order; a SELECT without
  ORDER BY enumerates the rows in that order.
\<close>

type_synonym timestamp = nat

record row =
  name :: string
  parent :: "string option"
  old_parent :: "string option"
  lft :: int
  rgt :: int
  modified :: timestamp

type_synonym table = "row list"

text \<open>
  The in-memory document handed to \<^verbatim>\<open>update_nsm\<close>. Its fields may be Python's None.
\<close>

record doc =
  doc_name :: string
  doc_parent :: "string option"
  doc_old_parent :: "string option"
  doc_lft :: "int option"
  doc_rgt :: "int option"

datatype error =
    NestedSetRecursionError
  | IndexError
  | TypeError
  | Exception
  | DoesNotExistError

subsection \<open>The record store\<close>

text \<open>
  The statements that nestedset.py sends through \<^verbatim>\<open>frappe.db.sql\<close> are plain SQL:
  \<^verbatim>\<open>UPDATE ... SET ... WHERE\<close> rewrites every row that satisfies the condition and leaves
  the others, in place; \<^verbatim>\<open>SELECT ... WHERE\<close> lists the rows that satisfy the condition.
\<close>

definition sql_update :: "(row \<Rightarrow> bool) \<Rightarrow> (row \<Rightarrow> row) \<Rightarrow> table \<Rightarrow> table" where
  "sql_update P f db = map (\<lambda>x. if P x then f x else x) db"

definition sql_select :: "(row \<Rightarrow> bool) \<Rightarrow> table \<Rightarrow> row list" where
  "sql_select P db = filter P db"

text \<open>SQL's MAX over a column: NULL (\<open>None\<close>) when no row is selected.\<close>

definition sql_max :: "int list \<Rightarrow> int option" where
  "sql_max xs = (case xs of [] \<Rightarrow> None | y # ys \<Rightarrow> Some (fold max ys y))"

text \<open>Python's truth value of \<^verbatim>\<open>doc.get(parent_field)\<close>: None and the empty string are false.\<close>

definition truthy :: "string option \<Rightarrow> bool" where
  "truthy p = (case p of None \<Rightarrow> False | Some s \<Rightarrow> s \<noteq> [])"

text \<open>Python's \<^verbatim>\<open>parent or ''\<close>, also SQL's \<^verbatim>\<open>COALESCE(parent, '')\<close>.\<close>

definition or_empty :: "string option \<Rightarrow> string" where
  "or_empty p = (case p of None \<Rightarrow> [] | Some s \<Rightarrow> s)"

text \<open>Python's \<^verbatim>\<open>not doc.lft\<close>: None and 0 are both false.\<close>

definition unset :: "int option \<Rightarrow> bool" where
  "unset v = (case v of None \<Rightarrow> True | Some n \<Rightarrow> n = 0)"

subsection \<open>validate_loop\<close>

definition validate_loop :: "table \<Rightarrow> string \<Rightarrow> int \<Rightarrow> int \<Rightarrow> error + unit" where
  "validate_loop db nm l r =
     (if nm \<in> set (map name (sql_select (\<lambda>x. lft x \<le> l \<and> rgt x \<ge> r) db))
      then Inl NestedSetRecursionError
      else Inr ())"

subsection \<open>update_add_node\<close>

text \<open>
  The result of an operation pairs what the call returns or raises with the table as it
  stands at that moment, so that a raise after a bulk update shows the rows already
  written. The body of \<^verbatim>\<open>update_add_node\<close> is cut at its comments: the target bound
  (``get the last sibling of the parent''), the widening (``update all on the right'')
  and the guarded assignment (``update index of new node'').
\<close>

definition add_node_target :: "table \<Rightarrow> doc \<Rightarrow> string \<Rightarrow> error + int" where
  "add_node_target db d parent_arg =
     (case (if parent_arg \<noteq> []
            then (case sql_select (\<lambda>x. name x = parent_arg) db of
                    [] \<Rightarrow> Inl IndexError
                  | p # _ \<Rightarrow>
                      (case validate_loop db (doc_name d) (lft p) (rgt p) of
                         Inl e \<Rightarrow> Inl e
                       | Inr _ \<Rightarrow> Inr (rgt p)))
            else Inr ((case sql_max (map rgt (sql_select (\<lambda>x. or_empty (parent x) = []) db)) of
                         None \<Rightarrow> 0 | Some m \<Rightarrow> m) + 1))
      of
        Inl e \<Rightarrow> Inl e
      | Inr right \<Rightarrow> Inr (if right = 0 then 1 else right))"

definition widen :: "timestamp \<Rightarrow> int \<Rightarrow> table \<Rightarrow> table" where
  "widen current_time right db =
     sql_update (\<lambda>x. lft x \<ge> right) (\<lambda>x. x\<lparr>lft := lft x + 2, modified := current_time\<rparr>)
       (sql_update (\<lambda>x. rgt x \<ge> right) (\<lambda>x. x\<lparr>rgt := rgt x + 2, modified := current_time\<rparr>) db)"

definition assign_new_node :: "timestamp \<Rightarrow> int \<Rightarrow> string \<Rightarrow> table \<Rightarrow> (error + int) \<times> table" where
  "assign_new_node current_time right nm db =
     (if sql_select (\<lambda>x. lft x = right \<or> rgt x = right + 1) db \<noteq> []
      then (Inl Exception, db)
      else (Inr right,
            sql_update (\<lambda>x. name x = nm)
              (\<lambda>x. x\<lparr>lft := right, rgt := right + 1, modified := current_time\<rparr>) db))"

definition update_add_node :: "timestamp \<Rightarrow> table \<Rightarrow> doc \<Rightarrow> string \<Rightarrow> (error + int) \<times> table" where
  "update_add_node current_time db d parent_arg =
     (case add_node_target db d parent_arg of
        Inl e \<Rightarrow> (Inl e, db)
      | Inr right \<Rightarrow> assign_new_node current_time right (doc_name d) (widen current_time right db))"

subsection \<open>update_move_node\<close>

text \<open>
  The bulk updates of \<^verbatim>\<open>update_move_node\<close>, grouped under the comments of the source:
  ``move to dark side'', ``shift left'' (with the ancestors' right bounds), ``shift right
  at new parent'' (the parent's own right bound, then the rows to its right, then its
  ancestors) and ``bring back from dark side''.
\<close>

definition move_to_dark_side :: "timestamp \<Rightarrow> int \<Rightarrow> int \<Rightarrow> table \<Rightarrow> table" where
  "move_to_dark_side current_time dl dr db =
     sql_update (\<lambda>x. lft x \<ge> dl \<and> rgt x \<le> dr)
       (\<lambda>x. x\<lparr>lft := - lft x, rgt := - rgt x, modified := current_time\<rparr>) db"

definition shift_left :: "timestamp \<Rightarrow> int \<Rightarrow> int \<Rightarrow> int \<Rightarrow> table \<Rightarrow> table" where
  "shift_left current_time dl dr diff db =
     sql_update (\<lambda>x. lft x < dl \<and> rgt x > dr)
       (\<lambda>x. x\<lparr>rgt := rgt x - diff, modified := current_time\<rparr>)
       (sql_update (\<lambda>x. lft x > dr)
          (\<lambda>x. x\<lparr>lft := lft x - diff, rgt := rgt x - diff, modified := current_time\<rparr>) db)"

definition shift_right :: "timestamp \<Rightarrow> string \<Rightarrow> row \<Rightarrow> int \<Rightarrow> table \<Rightarrow> table" where
  "shift_right current_time parent_name new_parent diff db =
     sql_update (\<lambda>x. lft x < lft new_parent \<and> rgt x > rgt new_parent)
       (\<lambda>x. x\<lparr>rgt := rgt x + diff, modified := current_time\<rparr>)
       (sql_update (\<lambda>x. lft x > rgt new_parent)
          (\<lambda>x. x\<lparr>lft := lft x + diff, rgt := rgt x + diff, modified := current_time\<rparr>)
          (sql_update (\<lambda>x. name x = parent_name)
             (\<lambda>x. x\<lparr>rgt := rgt x + diff, modified := current_time\<rparr>) db))"

definition bring_back :: "timestamp \<Rightarrow> int \<Rightarrow> table \<Rightarrow> table" where
  "bring_back current_time new_diff db =
     sql_update (\<lambda>x. lft x < 0)
       (\<lambda>x. x\<lparr>lft := - lft x + new_diff, rgt := - rgt x + new_diff, modified := current_time\<rparr>) db"

text \<open>
  A bound of the document that is None reaches the first UPDATE as NULL, which matches
  no row, and then fails in \<^verbatim>\<open>doc.rgt - doc.lft + 1\<close>.
\<close>

definition update_move_node :: "timestamp \<Rightarrow> table \<Rightarrow> doc \<Rightarrow> (error + unit) \<times> table" where
  "update_move_node current_time db d =
     (case (if truthy (doc_parent d)
            then (case sql_select (\<lambda>x. name x = or_empty (doc_parent d)) db of
                    [] \<Rightarrow> Inl IndexError
                  | new_parent # _ \<Rightarrow>
                      validate_loop db (doc_name d) (lft new_parent) (rgt new_parent))
            else Inr ())
      of
        Inl e \<Rightarrow> (Inl e, db)
      | Inr _ \<Rightarrow>
          (case (doc_lft d, doc_rgt d) of
             (Some dl, Some dr) \<Rightarrow>
               (let diff = dr - dl + 1;
                    db3 = shift_left current_time dl dr diff (move_to_dark_side current_time dl dr db)
                in if truthy (doc_parent d)
                   then (case sql_select (\<lambda>x. name x = or_empty (doc_parent d)) db3 of
                           [] \<Rightarrow> (Inl IndexError, db3)
                         | new_parent # _ \<Rightarrow>
                             (let new_diff = rgt new_parent - dl
                              in (Inr (),
                                  bring_back current_time new_diff
                                    (shift_right current_time (or_empty (doc_parent d))
                                       new_parent diff db3))))
                   else (case sql_max (map rgt db3) of
                           None \<Rightarrow> (Inl TypeError, db3)
                         | Some max_rgt \<Rightarrow>
                             (let new_diff = max_rgt + 1 - dl
                              in (Inr (), bring_back current_time new_diff db3))))
           | _ \<Rightarrow> (Inl TypeError, db)))"

subsection \<open>update_nsm\<close>

text \<open>
  Modelled from the spec: \<^verbatim>\<open>Document.reload\<close> is not part of nestedset.py. Section 4.6
  of the specification: it refreshes the in-memory fields from the store. A
  document whose row is gone raises DoesNotExistError (the handler in \<^verbatim>\<open>on_trash\<close>).
\<close>

definition reload :: "table \<Rightarrow> doc \<Rightarrow> error + doc" where
  "reload db d =
     (case sql_select (\<lambda>x. name x = doc_name d) db of
        [] \<Rightarrow> Inl DoesNotExistError
      | x # _ \<Rightarrow> Inr \<lparr>doc_name = name x, doc_parent = parent x, doc_old_parent = old_parent x,
                      doc_lft = Some (lft x), doc_rgt = Some (rgt x)\<rparr>)"

text \<open>
  Lines 47 to 51: ``set old parent'' in memory and in the store, then reload.
  \<^verbatim>\<open>frappe.db.set_value\<close> writes the one column of the rows with that name and, with
  \<^verbatim>\<open>update_modified=False\<close>, leaves \<^verbatim>\<open>modified\<close> alone.
\<close>

definition set_old_parent :: "table \<Rightarrow> doc \<Rightarrow> (error + unit) \<times> table \<times> doc" where
  "set_old_parent db d =
     (let d1 = d\<lparr>doc_old_parent := doc_parent d\<rparr>;
          db1 = sql_update (\<lambda>x. name x = doc_name d)
                  (\<lambda>x. x\<lparr>old_parent := Some (or_empty (doc_parent d))\<rparr>) db
      in case reload db1 d1 of
           Inl e \<Rightarrow> (Inl e, db1, d1)
         | Inr d2 \<Rightarrow> (Inr (), db1, d2))"

definition update_nsm :: "timestamp \<Rightarrow> table \<Rightarrow> doc \<Rightarrow> (error + unit) \<times> table \<times> doc" where
  "update_nsm current_time db d =
     (if unset (doc_lft d) \<and> unset (doc_rgt d)
      then (case update_add_node current_time db d (or_empty (doc_parent d)) of
              (Inl e, db') \<Rightarrow> (Inl e, db', d)
            | (Inr _, db') \<Rightarrow> set_old_parent db' d)
      else if doc_old_parent d \<noteq> doc_parent d
      then (case update_move_node current_time db d of
              (Inl e, db') \<Rightarrow> (Inl e, db', d)
            | (Inr _, db') \<Rightarrow> set_old_parent db' d)
      else set_old_parent db d)"

subsection \<open>rebuild_tree and rebuild_node\<close>

text \<open>
  \<^verbatim>\<open>rebuild_node\<close> calls itself inside its loop over the children, and nothing in the
  code bounds the depth of the recursion, so the model carries fuel: the number of nested
  calls still allowed. \<open>None\<close> is a run that needs a deeper recursion than that.
  \<open>rebuild_children\<close> is the \<^verbatim>\<open>for r in result\<close> loop, which threads \<^verbatim>\<open>right\<close> and the
  table through the calls. Every call reads the clock; the model passes one timestamp.
\<close>

fun rebuild_node :: "nat \<Rightarrow> timestamp \<Rightarrow> table \<Rightarrow> string \<Rightarrow> int \<Rightarrow> (table \<times> int) option"
  and rebuild_children :: "nat \<Rightarrow> timestamp \<Rightarrow> string list \<Rightarrow> table \<Rightarrow> int \<Rightarrow> (table \<times> int) option"
where
  "rebuild_node 0 current_time db p left = None"
| "rebuild_node (Suc n) current_time db p left =
     (case rebuild_children n current_time
             (map name (sql_select (\<lambda>x. parent x = Some p) db)) db (left + 1) of
        None \<Rightarrow> None
      | Some (db', right) \<Rightarrow>
          Some (sql_update (\<lambda>x. name x = p)
                  (\<lambda>x. x\<lparr>lft := left, rgt := right, modified := current_time\<rparr>) db',
                right + 1))"
| "rebuild_children n current_time [] db right = Some (db, right)"
| "rebuild_children n current_time (c # cs) db right =
     (case rebuild_node n current_time db c right of
        None \<Rightarrow> None
      | Some (db', right') \<Rightarrow> rebuild_children n current_time cs db' right')"

definition rebuild_tree :: "nat \<Rightarrow> timestamp \<Rightarrow> table \<Rightarrow> table option" where
  "rebuild_tree fuel current_time db =
     map_option fst
       (rebuild_children fuel current_time
          (map name (sort_key name (sql_select (\<lambda>x. parent x = Some [] \<or> parent x = None) db)))
          db 1)"

subsection \<open>get_ancestors_of and get_descendants_of\<close>

text \<open>
  Modelled from the spec: \<^verbatim>\<open>frappe.db.get_value\<close>, \<^verbatim>\<open>get_all\<close> and \<^verbatim>\<open>get_list\<close> are not
  part of nestedset.py. Section 6: \<^verbatim>\<open>readBounds\<close> is a point lookup, \<^verbatim>\<open>enumerate\<close> takes a
  predicate, an order and a limit and gives an ordered sequence. \<^verbatim>\<open>get_list\<close> differs from
  \<^verbatim>\<open>get_all\<close> in that it keeps only the rows the user may read, unless
  \<^verbatim>\<open>ignore_permissions\<close> is set; which rows those are is a parameter here.
\<close>

datatype order_by = Lft_desc | Lft_asc

definition get_value :: "table \<Rightarrow> string \<Rightarrow> (int \<times> int) option" where
  "get_value db nm =
     (case sql_select (\<lambda>x. name x = nm) db of [] \<Rightarrow> None | x # _ \<Rightarrow> Some (lft x, rgt x))"

definition order_rows :: "order_by \<Rightarrow> row list \<Rightarrow> row list" where
  "order_rows ord rows =
     (case ord of Lft_desc \<Rightarrow> sort_key (\<lambda>x. - lft x) rows | Lft_asc \<Rightarrow> sort_key lft rows)"

definition get_all :: "table \<Rightarrow> (row \<Rightarrow> bool) \<Rightarrow> order_by \<Rightarrow> nat option \<Rightarrow> row list" where
  "get_all db filters ord limit_page_length =
     (let rows = order_rows ord (sql_select filters db)
      in case limit_page_length of None \<Rightarrow> rows | Some n \<Rightarrow> take n rows)"

definition get_list :: "(row \<Rightarrow> bool) \<Rightarrow> table \<Rightarrow> (row \<Rightarrow> bool) \<Rightarrow> order_by \<Rightarrow> nat option \<Rightarrow> bool \<Rightarrow> row list" where
  "get_list permitted db filters ord limit_page_length ignore_permissions =
     get_all db (\<lambda>x. filters x \<and> (ignore_permissions \<or> permitted x)) ord limit_page_length"

definition get_ancestors_of :: "table \<Rightarrow> string \<Rightarrow> order_by \<Rightarrow> nat option \<Rightarrow> error + string list" where
  "get_ancestors_of db nm ord limit =
     (case get_value db nm of
        None \<Rightarrow> Inl TypeError
      | Some (l, r) \<Rightarrow> Inr (map name (get_all db (\<lambda>x. lft x < l \<and> rgt x > r) ord limit)))"

definition get_descendants_of ::
    "(row \<Rightarrow> bool) \<Rightarrow> table \<Rightarrow> string \<Rightarrow> order_by \<Rightarrow> nat option \<Rightarrow> bool \<Rightarrow> error + string list" where
  "get_descendants_of permitted db nm ord limit ignore_permissions =
     (case get_value db nm of
        None \<Rightarrow> Inl TypeError
      | Some (l, r) \<Rightarrow>
          Inr (map name (get_list permitted db (\<lambda>x. lft x > l \<and> rgt x < r) ord limit
                           ignore_permissions)))"

section \<open>Notions used in the statements\<close>

subsection \<open>Well-formed tables\<close>

text \<open>
  Section 3 of the specification: \<open>left < right\<close> for every node. The bounds that the
  operations hand out start at 1, so stored bounds of synchronised rows are positive.
\<close>

definition valid_bounds :: "table \<Rightarrow> bool" where
  "valid_bounds db = (\<forall>x\<in>set db. 0 < lft x \<and> lft x < rgt x)"

text \<open>The rows that \<^verbatim>\<open>rebuild_tree\<close> selects as roots.\<close>

definition is_root :: "row \<Rightarrow> bool" where
  "is_root x = (parent x = Some [] \<or> parent x = None)"

text \<open>\<^verbatim>\<open>name\<close> is the primary key, and no document is named by the empty string.\<close>

definition wf_names :: "table \<Rightarrow> bool" where
  "wf_names db = (distinct (map name db) \<and> [] \<notin> set (map name db))"

text \<open>
  The call stack of \<^verbatim>\<open>rebuild_node\<close>: the node being numbered first, then its parent, up to
  a root. Every link of the stack is a row whose parent column names the next entry.
\<close>

fun chain :: "table \<Rightarrow> string list \<Rightarrow> bool" where
  "chain db [] = False"
| "chain db [r] = (\<exists>x\<in>set db. name x = r \<and> is_root x)"
| "chain db (c # p # ps) = ((\<exists>x\<in>set db. name x = c \<and> parent x = Some p) \<and> chain db (p # ps))"

text \<open>\<open>desc_of db k x\<close>: following parent links upwards from \<open>x\<close> reaches \<open>k\<close>.\<close>

inductive desc_of :: "table \<Rightarrow> string \<Rightarrow> string \<Rightarrow> bool" for db k where
  self: "desc_of db k k"
| step: "desc_of db k y \<Longrightarrow> x \<in> set db \<Longrightarrow> parent x = Some y \<Longrightarrow> desc_of db k (name x)"

subsection \<open>The numbering of section 4.4, in the specification's words\<close>

text \<open>
  This definition follows the specification, not the code: ``recursively assigns
  \<open>left = counter\<close>, recurses into children (enumerated by parent-key filter), then
  \<open>right = counter\<close> after all children processed, incrementing a shared running
  counter''. It never writes to the table: it yields the assignments \<open>(key, left, right)\<close> in
  the order in which they are completed, and the counter. The children are taken in the
  order in which the store enumerates them.
\<close>

type_synonym assignment = "string \<times> int \<times> int"

fun euler_node :: "nat \<Rightarrow> table \<Rightarrow> string \<Rightarrow> int \<Rightarrow> (assignment list \<times> int) option"
  and euler_children :: "nat \<Rightarrow> table \<Rightarrow> string list \<Rightarrow> int \<Rightarrow> (assignment list \<times> int) option"
where
  "euler_node 0 db k counter = None"
| "euler_node (Suc n) db k counter =
     (case euler_children n db (map name (sql_select (\<lambda>x. parent x = Some k) db)) (counter + 1) of
        None \<Rightarrow> None
      | Some (as, counter') \<Rightarrow> Some (as @ [(k, counter, counter')], counter' + 1))"
| "euler_children n db [] counter = Some ([], counter)"
| "euler_children n db (c # cs) counter =
     (case euler_node n db c counter of
        None \<Rightarrow> None
      | Some (as, counter') \<Rightarrow>
          (case euler_children n db cs counter' of
             None \<Rightarrow> None
           | Some (bs, counter'') \<Rightarrow> Some (as @ bs, counter'')))"

text \<open>Writing a list of assignments to the table, one UPDATE by name each.\<close>

definition assign :: "timestamp \<Rightarrow> assignment list \<Rightarrow> table \<Rightarrow> table" where
  "assign t as db =
     fold (\<lambda>(k, l, r). sql_update (\<lambda>x. name x = k) (\<lambda>x. x\<lparr>lft := l, rgt := r, modified := t\<rparr>)) as db"

text \<open>The same, seen from one row.\<close>

definition arow :: "timestamp \<Rightarrow> assignment list \<Rightarrow> row \<Rightarrow> row" where
  "arow t as x =
     fold (\<lambda>(k, l, r) x. if name x = k then x\<lparr>lft := l, rgt := r, modified := t\<rparr> else x) as x"

text \<open>The columns that decide the walk of \<^verbatim>\<open>rebuild_tree\<close>: key and parent key.\<close>

definition skeleton :: "table \<Rightarrow> (string \<times> string option) list" where
  "skeleton db = map (\<lambda>x. (name x, parent x)) db"

subsection \<open>Example tables\<close>

text \<open>
  The fixture of section 8: root R(1,10) with children A(2,5) and B(6,9); A and B have one
  leaf each, which gives them their width.
\<close>

definition fixture_row :: "string \<Rightarrow> string option \<Rightarrow> int \<Rightarrow> int \<Rightarrow> row" where
  "fixture_row n p l r = \<lparr>name = n, parent = p, old_parent = p, lft = l, rgt = r, modified = 0\<rparr>"

definition fixture :: table where
  "fixture = [fixture_row ''R'' None 1 10,
              fixture_row ''A'' (Some ''R'') 2 5, fixture_row ''A1'' (Some ''A'') 3 4,
              fixture_row ''B'' (Some ''R'') 6 9, fixture_row ''B1'' (Some ''B'') 7 8]"

text \<open>The fixture with the row of a new document C under B, its bounds still unset.\<close>

definition fixture_with_C :: table where
  "fixture_with_C = fixture @ [fixture_row ''C'' (Some ''B'') 0 0]"

definition doc_C :: doc where
  "doc_C = \<lparr>doc_name = ''C'', doc_parent = Some ''B'', doc_old_parent = None,
             doc_lft = None, doc_rgt = None\<rparr>"

text \<open>The document A as loaded from the fixture, and A with its parent changed.\<close>

definition doc_A :: doc where
  "doc_A = \<lparr>doc_name = ''A'', doc_parent = Some ''R'', doc_old_parent = Some ''R'',
             doc_lft = Some 2, doc_rgt = Some 5\<rparr>"

definition doc_A_to_B :: doc where
  "doc_A_to_B = doc_A\<lparr>doc_parent := Some ''B''\<rparr>"

text \<open>Two trees side by side, and the row of a new document N under A.\<close>

definition two_trees :: table where
  "two_trees = [fixture_row ''R1'' None 1 4, fixture_row ''A'' (Some ''R1'') 2 3,
                fixture_row ''R2'' None 5 6, fixture_row ''N'' (Some ''A'') 0 0]"

definition doc_N :: doc where
  "doc_N = \<lparr>doc_name = ''N'', doc_parent = Some ''A'', doc_old_parent = None,
             doc_lft = None, doc_rgt = None\<rparr>"

text \<open>The fixture with the row of a new root Z.\<close>

definition fixture_with_Z :: table where
  "fixture_with_Z = fixture @ [fixture_row ''Z'' None 0 0]"

definition doc_Z :: doc where
  "doc_Z = \<lparr>doc_name = ''Z'', doc_parent = None, doc_old_parent = None,
             doc_lft = None, doc_rgt = None\<rparr>"

text \<open>
  A forest whose rows are stored in no particular order: roots R2 and R1, and under R1 the
  children b and a, stored in this order. No bounds have been assigned.
\<close>

definition forest :: table where
  "forest = [fixture_row ''R2'' None 0 0, fixture_row ''b'' (Some ''R1'') 0 0,
             fixture_row ''R1'' (Some []) 0 0, fixture_row ''a'' (Some ''R1'') 0 0,
             fixture_row ''y'' (Some ''R2'') 0 0]"

text \<open>The same rows with the bounds that \<^verbatim>\<open>rebuild_tree\<close> gives them at time 1.\<close>

definition forest_rebuilt :: table where
  "forest_rebuilt =
     [\<lparr>name = ''R2'', parent = None, old_parent = None, lft = 7, rgt = 10, modified = 1\<rparr>,
      \<lparr>name = ''b'', parent = Some ''R1'', old_parent = Some ''R1'', lft = 2, rgt = 3, modified = 1\<rparr>,
      \<lparr>name = ''R1'', parent = Some [], old_parent = Some [], lft = 1, rgt = 6, modified = 1\<rparr>,
      \<lparr>name = ''a'', parent = Some ''R1'', old_parent = Some ''R1'', lft = 4, rgt = 5, modified = 1\<rparr>,
      \<lparr>name = ''y'', parent = Some ''R2'', old_parent = Some ''R2'', lft = 8, rgt = 9, modified = 1\<rparr>]"

text \<open>Two roots whose parent column is NULL, and the document R as first loaded.\<close>

definition two_roots :: table where
  "two_roots = [fixture_row ''R'' None 1 2, fixture_row ''S'' None 3 4]"

definition doc_R :: doc where
  "doc_R = \<lparr>doc_name = ''R'', doc_parent = None, doc_old_parent = None,
             doc_lft = Some 1, doc_rgt = Some 2\<rparr>"

section \<open>Facts about the record store\<close>

lemma sql_select_hd_mem:
  "sql_select P db = x # xs \<Longrightarrow> x \<in> set db \<and> P x"
  unfolding sql_select_def by (metis filter_eq_ConsD in_set_conv_decomp)

lemma sql_select_first_index:
  assumes "sql_select P db = x # xs"
  shows "\<exists>j<length db. db ! j = x \<and> P x"
  using sql_select_hd_mem[OF assms] by (auto simp: in_set_conv_nth)

lemma sql_max_Max: "sql_max xs = (if xs = [] then None else Some (Max (set xs)))"
  by (cases xs) (simp_all add: sql_max_def Max.set_eq_fold[symmetric])

lemma length_sql_update [simp]: "length (sql_update P f db) = length db"
  by (simp add: sql_update_def)

lemma nth_sql_update:
  "i < length db \<Longrightarrow> sql_update P f db ! i = (if P (db ! i) then f (db ! i) else db ! i)"
  by (simp add: sql_update_def)

lemma same_name_same_row:
  assumes "distinct (map name db)" "x \<in> set db" "y \<in> set db" "name x = name y"
  shows "x = y"
  using assms by (meson distinct_map inj_onD)

lemma distinct_name_eq:
  assumes "distinct (map name db)" "i < length db" "j < length db" "name (db ! i) = name (db ! j)"
  shows "i = j"
  using assms by (metis distinct_conv_nth length_map nth_map)

section \<open>The loop guard\<close>

lemma validate_loop_raises:
  assumes "x \<in> set db" "name x = nm" "lft x \<le> l" "r \<le> rgt x"
  shows "validate_loop db nm l r = Inl NestedSetRecursionError"
  using assms by (auto simp: validate_loop_def sql_select_def)

lemma validate_loop_passes:
  "validate_loop db nm l r = Inr () \<longleftrightarrow> (\<forall>x\<in>set db. name x = nm \<longrightarrow> \<not> (lft x \<le> l \<and> r \<le> rgt x))"
  by (auto simp: validate_loop_def sql_select_def)

text \<open>
  Claim C3. A document whose row is \<open>x\<close> is given the parent \<open>p\<close>, and the row \<open>np\<close> of \<open>p\<close>
  lies strictly inside the interval of \<open>x\<close>, so \<open>p\<close> is one of its descendants. Then the
  relocation and the insertion both raise NestedSetRecursionError with the table exactly
  as it was, and so does \<^verbatim>\<open>update_nsm\<close> on whichever of the two it dispatches to.
\<close>

theorem loop_rejection:
  assumes doc_row: "x \<in> set db" "name x = doc_name d"
    and par: "p \<noteq> []" "sql_select (\<lambda>y. name y = p) db = np # rest"
    and desc: "lft x < lft np" "rgt np < rgt x"
  shows "update_move_node t db (d\<lparr>doc_parent := Some p\<rparr>) = (Inl NestedSetRecursionError, db)
       \<and> update_add_node t db d p = (Inl NestedSetRecursionError, db)
       \<and> ((unset (doc_lft d) \<and> unset (doc_rgt d)) \<or> doc_old_parent d \<noteq> Some p \<longrightarrow>
            update_nsm t db (d\<lparr>doc_parent := Some p\<rparr>)
              = (Inl NestedSetRecursionError, db, d\<lparr>doc_parent := Some p\<rparr>))"
proof -
  have v: "validate_loop db (doc_name d) (lft np) (rgt np) = Inl NestedSetRecursionError"
    using doc_row desc by (intro validate_loop_raises[of x]) auto
  have mv: "update_move_node t db (d\<lparr>doc_parent := Some p\<rparr>) = (Inl NestedSetRecursionError, db)"
    using par v by (simp add: update_move_node_def truthy_def or_empty_def)
  have add: "update_add_node t db d' p = (Inl NestedSetRecursionError, db)" if "doc_name d' = doc_name d" for d'
    using par v that by (simp add: update_add_node_def add_node_target_def)
  have "update_nsm t db (d\<lparr>doc_parent := Some p\<rparr>)
          = (Inl NestedSetRecursionError, db, d\<lparr>doc_parent := Some p\<rparr>)"
    if "(unset (doc_lft d) \<and> unset (doc_rgt d)) \<or> doc_old_parent d \<noteq> Some p"
    using that mv add[of "d\<lparr>doc_parent := Some p\<rparr>"]
    by (auto simp: update_nsm_def or_empty_def)
  then show ?thesis using mv add[of d] by simp
qed

theorem loop_rejection_witness:
  "update_move_node 1 fixture (doc_A\<lparr>doc_parent := Some ''A1''\<rparr>) = (Inl NestedSetRecursionError, fixture)
   \<and> update_add_node 1 fixture doc_A ''A1'' = (Inl NestedSetRecursionError, fixture)
   \<and> update_nsm 1 fixture (doc_A\<lparr>doc_parent := Some ''A1''\<rparr>)
        = (Inl NestedSetRecursionError, fixture, doc_A\<lparr>doc_parent := Some ''A1''\<rparr>)"
proof -
  have a: "fixture ! 1 \<in> set fixture" by code_simp
  have b: "name (fixture ! 1) = doc_name doc_A" by code_simp
  have c: "''A1'' \<noteq> []" by simp
  have e: "sql_select (\<lambda>y. name y = ''A1'') fixture = fixture ! 2 # []" by code_simp
  have f: "lft (fixture ! 1) < lft (fixture ! 2)" by code_simp
  have g: "rgt (fixture ! 2) < rgt (fixture ! 1)" by code_simp
  have h: "doc_old_parent doc_A \<noteq> Some ''A1''" by code_simp
  show ?thesis using loop_rejection[OF a b c e f g, of 1] h by blast
qed

text \<open>
  Claim C10. A document with a non-empty name whose row is stored is given itself as
  parent. The check is \<open>lft \<le> parent.lft\<close> and \<open>rgt \<ge> parent.rgt\<close>, which the row satisfies
  against its own bounds, so the relocation raises NestedSetRecursionError and the table is
  as it was; \<^verbatim>\<open>update_nsm\<close>, when it dispatches to the relocation, raises the same.
\<close>

theorem self_parent_rejected:
  assumes "doc_name d \<noteq> []" "x \<in> set db" "name x = doc_name d"
  shows "update_move_node t db (d\<lparr>doc_parent := Some (doc_name d)\<rparr>) = (Inl NestedSetRecursionError, db)
       \<and> (\<not> (unset (doc_lft d) \<and> unset (doc_rgt d)) \<and> doc_old_parent d \<noteq> Some (doc_name d) \<longrightarrow>
            update_nsm t db (d\<lparr>doc_parent := Some (doc_name d)\<rparr>)
              = (Inl NestedSetRecursionError, db, d\<lparr>doc_parent := Some (doc_name d)\<rparr>))"
proof -
  obtain np rest where sel: "sql_select (\<lambda>y. name y = doc_name d) db = np # rest"
    using assms(2,3)
    by (cases "sql_select (\<lambda>y. name y = doc_name d) db") (auto simp: sql_select_def filter_empty_conv)
  then have np: "np \<in> set db" "name np = doc_name d"
    using sql_select_hd_mem[OF sel] by auto
  have v: "validate_loop db (doc_name d) (lft np) (rgt np) = Inl NestedSetRecursionError"
    using np by (intro validate_loop_raises[of np]) auto
  have mv: "update_move_node t db (d\<lparr>doc_parent := Some (doc_name d)\<rparr>) = (Inl NestedSetRecursionError, db)"
    using assms(1) sel v by (simp add: update_move_node_def truthy_def or_empty_def)
  then show ?thesis by (auto simp: update_nsm_def)
qed

theorem self_parent_rejected_witness:
  "update_move_node 1 fixture (doc_A\<lparr>doc_parent := Some (doc_name doc_A)\<rparr>)
     = (Inl NestedSetRecursionError, fixture)
   \<and> update_nsm 1 fixture (doc_A\<lparr>doc_parent := Some (doc_name doc_A)\<rparr>)
     = (Inl NestedSetRecursionError, fixture, doc_A\<lparr>doc_parent := Some (doc_name doc_A)\<rparr>)"
proof -
  have a: "doc_name doc_A \<noteq> []" by code_simp
  have b: "fixture ! 1 \<in> set fixture" by code_simp
  have c: "name (fixture ! 1) = doc_name doc_A" by code_simp
  have e: "\<not> (unset (doc_lft doc_A) \<and> unset (doc_rgt doc_A)) \<and> doc_old_parent doc_A \<noteq> Some (doc_name doc_A)"
    by code_simp
  show ?thesis using self_parent_rejected[OF a b c, of 1] e by blast
qed

section \<open>Insertion\<close>

lemma length_widen [simp]: "length (widen t T db) = length db"
  by (simp add: widen_def)

lemma nth_widen:
  assumes "i < length db"
  shows "name (widen t T db ! i) = name (db ! i)"
    and "parent (widen t T db ! i) = parent (db ! i)"
    and "lft (widen t T db ! i) = (if T \<le> lft (db ! i) then lft (db ! i) + 2 else lft (db ! i))"
    and "rgt (widen t T db ! i) = (if T \<le> rgt (db ! i) then rgt (db ! i) + 2 else rgt (db ! i))"
  using assms by (simp_all add: widen_def nth_sql_update)

lemma widen_untouched:
  assumes "i < length db" "lft (db ! i) < T" "rgt (db ! i) < T"
  shows "widen t T db ! i = db ! i"
  using assms by (simp add: widen_def nth_sql_update)

text \<open>
  After the two widening updates no row has \<open>lft = target\<close> or \<open>rgt = target + 1\<close>: in a
  run of \<^verbatim>\<open>update_add_node\<close> alone on the table, the guard of line 83 finds nothing.
\<close>

lemma guard_unreachable:
  "sql_select (\<lambda>x. lft x = T \<or> rgt x = T + 1) (widen t T db) = []"
  by (auto simp: sql_select_def filter_empty_conv widen_def sql_update_def split: if_splits)

lemma update_add_node_after_target:
  assumes "add_node_target db d pa = Inr T"
  shows "update_add_node t db d pa =
           (Inr T, sql_update (\<lambda>x. name x = doc_name d)
                     (\<lambda>x. x\<lparr>lft := T, rgt := T + 1, modified := t\<rparr>) (widen t T db))"
  using assms by (simp add: update_add_node_def assign_new_node_def guard_unreachable)

text \<open>
  Claim C6. \<open>db2\<close> is the table after the widening updates and \<open>right\<close> the target. If
  some row occupies exactly \<open>[right, right + 1]\<close>, the step raises and assigns nothing: the
  table is returned as it was. If the step does not raise, no row occupies that interval
  and the rows of the new node get \<open>(right, right + 1)\<close>. The step is what
  \<^verbatim>\<open>update_add_node\<close> does after widening.
\<close>

theorem insertion_guard:
  "((\<exists>x\<in>set db2. lft x = right \<and> rgt x = right + 1) \<longrightarrow>
      assign_new_node t right nm db2 = (Inl Exception, db2))
   \<and> (assign_new_node t right nm db2 \<noteq> (Inl Exception, db2) \<longrightarrow>
        \<not> (\<exists>x\<in>set db2. lft x = right \<and> rgt x = right + 1)
        \<and> assign_new_node t right nm db2 =
            (Inr right, sql_update (\<lambda>x. name x = nm)
                          (\<lambda>x. x\<lparr>lft := right, rgt := right + 1, modified := t\<rparr>) db2))
   \<and> (add_node_target db d pa = Inr right \<longrightarrow>
         update_add_node t db d pa = assign_new_node t right (doc_name d) (widen t right db))"
  by (auto simp: assign_new_node_def sql_select_def filter_empty_conv update_add_node_def)

theorem insertion_guard_witness:
  "assign_new_node 1 3 ''C'' [fixture_row ''X'' None 3 4] = (Inl Exception, [fixture_row ''X'' None 3 4])
   \<and> assign_new_node 1 20 ''C'' fixture_with_C =
        (Inr 20, sql_update (\<lambda>x. name x = ''C'') (\<lambda>x. x\<lparr>lft := 20, rgt := 20 + 1, modified := 1\<rparr>)
                   fixture_with_C)
   \<and> update_add_node 1 fixture_with_C doc_C ''B''
        = assign_new_node 1 9 (doc_name doc_C) (widen 1 9 fixture_with_C)"
proof -
  have a: "\<exists>x\<in>set [fixture_row ''X'' None 3 4]. lft x = 3 \<and> rgt x = 3 + 1" by code_simp
  have b: "assign_new_node 1 20 ''C'' fixture_with_C \<noteq> (Inl Exception, fixture_with_C)" by code_simp
  have c: "add_node_target fixture_with_C doc_C ''B'' = Inr 9" by code_simp
  show ?thesis
    using insertion_guard[of "[fixture_row ''X'' None 3 4]" 3 1 "''C''"]
      insertion_guard[of fixture_with_C 20 1 "''C''"]
      insertion_guard[of _ 9 1 _ fixture_with_C doc_C "''B''"] a b c
    by blast
qed

lemma add_node_target_root:
  assumes "\<forall>x\<in>set db. or_empty (parent x) = [] \<longrightarrow> 0 \<le> rgt x"
  shows "add_node_target db d [] =
           Inr (if sql_select (\<lambda>x. or_empty (parent x) = []) db = [] then 1
                else Max (rgt ` set (sql_select (\<lambda>x. or_empty (parent x) = []) db)) + 1)"
proof (cases "sql_select (\<lambda>x. or_empty (parent x) = []) db = []")
  case True
  then show ?thesis by (simp add: add_node_target_def sql_max_Max)
next
  case False
  let ?rs = "sql_select (\<lambda>x. or_empty (parent x) = []) db"
  have "\<forall>v \<in> rgt ` set ?rs. 0 \<le> v" using assms by (auto simp: sql_select_def)
  moreover have "Max (rgt ` set ?rs) \<in> rgt ` set ?rs" using False by (intro Max_in) auto
  ultimately have "0 \<le> Max (rgt ` set ?rs)" by blast
  then show ?thesis using False by (simp add: add_node_target_def sql_max_Max)
qed

text \<open>
  Claim C5. No stored root has a negative right bound. Inserting with no parent takes as
  target \<open>T\<close> the greatest right bound of the rows whose parent key is empty, plus 1, or 1
  when there is no such row. The call returns \<open>T\<close>, the rows of the new node get
  \<open>(T, T + 1)\<close>, and every other row with an empty parent key keeps its right bound,
  which is below \<open>T\<close>: the new root comes after all existing roots.
\<close>

theorem insert_root_target:
  assumes "\<forall>x\<in>set db. or_empty (parent x) = [] \<longrightarrow> 0 \<le> rgt x"
    and "T = (if sql_select (\<lambda>x. or_empty (parent x) = []) db = [] then 1
              else Max (rgt ` set (sql_select (\<lambda>x. or_empty (parent x) = []) db)) + 1)"
  shows "\<exists>db'. update_add_node t db d [] = (Inr T, db') \<and> length db' = length db
          \<and> (\<forall>i<length db. name (db' ! i) = name (db ! i) \<and> parent (db' ! i) = parent (db ! i))
          \<and> (\<forall>i<length db. name (db ! i) = doc_name d \<longrightarrow> lft (db' ! i) = T \<and> rgt (db' ! i) = T + 1)
          \<and> (\<forall>i<length db. or_empty (parent (db ! i)) = [] \<and> name (db ! i) \<noteq> doc_name d \<longrightarrow>
                rgt (db' ! i) = rgt (db ! i) \<and> rgt (db' ! i) < T)"
proof -
  let ?rs = "sql_select (\<lambda>x. or_empty (parent x) = []) db"
  have tgt: "add_node_target db d [] = Inr T"
    using add_node_target_root[OF assms(1)] assms(2) by simp
  have below: "rgt (db ! i) < T" if "i < length db" "or_empty (parent (db ! i)) = []" for i
  proof -
    have "db ! i \<in> set ?rs" using that by (simp add: sql_select_def)
    then have "?rs \<noteq> []" "rgt (db ! i) \<le> Max (rgt ` set ?rs)" by auto
    then show ?thesis using assms(2) by simp
  qed
  show ?thesis
    unfolding update_add_node_after_target[OF tgt]
    using below by (fastforce simp: nth_sql_update nth_widen)
qed

theorem insert_root_target_witness:
  "fst (update_add_node 1 fixture_with_Z doc_Z []) = Inr 11
   \<and> lft (snd (update_add_node 1 fixture_with_Z doc_Z []) ! 5) = 11
   \<and> rgt (snd (update_add_node 1 fixture_with_Z doc_Z []) ! 5) = 12
   \<and> rgt (snd (update_add_node 1 fixture_with_Z doc_Z []) ! 0) = 10"
proof -
  have a: "\<forall>x\<in>set fixture_with_Z. or_empty (parent x) = [] \<longrightarrow> 0 \<le> rgt x" by code_simp
  have b: "11 = (if sql_select (\<lambda>x. or_empty (parent x) = []) fixture_with_Z = [] then 1
              else Max (rgt ` set (sql_select (\<lambda>x. or_empty (parent x) = []) fixture_with_Z)) + 1)"
    by code_simp
  have c: "(5::nat) < length fixture_with_Z" "name (fixture_with_Z ! 5) = doc_name doc_Z"
    "(0::nat) < length fixture_with_Z" "or_empty (parent (fixture_with_Z ! 0)) = []"
    "name (fixture_with_Z ! 0) \<noteq> doc_name doc_Z" "rgt (fixture_with_Z ! 0) = 10"
    by code_simp+
  from insert_root_target[OF a b, of 1 doc_Z] obtain db' where
    r: "update_add_node 1 fixture_with_Z doc_Z [] = (Inr 11, db')"
    and n: "\<forall>i<length fixture_with_Z. name (fixture_with_Z ! i) = doc_name doc_Z \<longrightarrow>
              lft (db' ! i) = 11 \<and> rgt (db' ! i) = 11 + 1"
    and o: "\<forall>i<length fixture_with_Z. or_empty (parent (fixture_with_Z ! i)) = [] \<and>
              name (fixture_with_Z ! i) \<noteq> doc_name doc_Z \<longrightarrow>
              rgt (db' ! i) = rgt (fixture_with_Z ! i) \<and> rgt (db' ! i) < 11"
    by blast
  show ?thesis using r n[rule_format, OF c(1,2)] o[rule_format, OF c(3)] c(4,5,6) by simp
qed

text \<open>
  The scenario of section 8: C is inserted under B(6,9). C gets (9,10), B becomes (6,11)
  and R becomes (1,12); A and the leaves under A and B stay as they are.
\<close>

lemma insert_C_under_B:
  "update_add_node 1 fixture_with_C doc_C ''B'' =
     (Inr 9,
      [\<lparr>name = ''R'', parent = None, old_parent = None, lft = 1, rgt = 12, modified = 1\<rparr>,
       \<lparr>name = ''A'', parent = Some ''R'', old_parent = Some ''R'', lft = 2, rgt = 5, modified = 0\<rparr>,
       \<lparr>name = ''A1'', parent = Some ''A'', old_parent = Some ''A'', lft = 3, rgt = 4, modified = 0\<rparr>,
       \<lparr>name = ''B'', parent = Some ''R'', old_parent = Some ''R'', lft = 6, rgt = 11, modified = 1\<rparr>,
       \<lparr>name = ''B1'', parent = Some ''B'', old_parent = Some ''B'', lft = 7, rgt = 8, modified = 0\<rparr>,
       \<lparr>name = ''C'', parent = Some ''B'', old_parent = Some ''B'', lft = 9, rgt = 10, modified = 1\<rparr>])"
  by code_simp

text \<open>
  Claim C4, as stated, fails on its last part. In \<open>two_trees\<close> the root R2(5,6) is a tree of
  its own, to the right of the tree of R1. Inserting N under A, in the tree of R1, has
  target 3 and moves R2 to (7,8).
\<close>

theorem insert_shifts_other_tree:
  "parent (two_trees ! 2) = None \<and> lft (two_trees ! 2) = 5 \<and> rgt (two_trees ! 2) = 6
   \<and> update_add_node 1 two_trees doc_N ''A'' =
       (Inr 3,
        [\<lparr>name = ''R1'', parent = None, old_parent = None, lft = 1, rgt = 6, modified = 1\<rparr>,
         \<lparr>name = ''A'', parent = Some ''R1'', old_parent = Some ''R1'', lft = 2, rgt = 5, modified = 1\<rparr>,
         \<lparr>name = ''R2'', parent = None, old_parent = None, lft = 7, rgt = 8, modified = 1\<rparr>,
         \<lparr>name = ''N'', parent = Some ''A'', old_parent = Some ''A'', lft = 3, rgt = 4, modified = 1\<rparr>])"
  by code_simp

text \<open>
  Claim C4, amended. The parent \<open>p\<close> is stored with \<open>lft p < rgt p\<close> and \<open>rgt p \<noteq> 0\<close>, and
  the loop guard passes. With \<open>t = rgt p\<close> before the call: the call returns \<open>t\<close>; the rows
  of the new node get \<open>(t, t + 1)\<close>; every other row has 2 added to each bound that is
  \<open>\<ge> t\<close> and keeps each bound that is below \<open>t\<close>; the width of \<open>p\<close> grows by exactly 2; and a row
  with both bounds below \<open>t\<close> is not written at all. So a tree that lies wholly to the left
  of the insertion point is untouched, and a tree wholly to its right is shifted by 2 as
  a whole.
\<close>

theorem insert_under_parent:
  assumes par: "parent_arg \<noteq> []" "sql_select (\<lambda>x. name x = parent_arg) db = p # rest"
    and bounds: "rgt p \<noteq> 0" "lft p < rgt p"
    and ok: "validate_loop db (doc_name d) (lft p) (rgt p) = Inr ()"
  shows "\<exists>db'. update_add_node t db d parent_arg = (Inr (rgt p), db') \<and> length db' = length db
          \<and> (\<forall>i<length db. name (db' ! i) = name (db ! i) \<and> parent (db' ! i) = parent (db ! i))
          \<and> (\<forall>i<length db. name (db ! i) = doc_name d \<longrightarrow>
                lft (db' ! i) = rgt p \<and> rgt (db' ! i) = rgt p + 1)
          \<and> (\<forall>i<length db. name (db ! i) \<noteq> doc_name d \<longrightarrow>
                lft (db' ! i) = (if rgt p \<le> lft (db ! i) then lft (db ! i) + 2 else lft (db ! i)) \<and>
                rgt (db' ! i) = (if rgt p \<le> rgt (db ! i) then rgt (db ! i) + 2 else rgt (db ! i)))
          \<and> (\<forall>i<length db. db ! i = p \<longrightarrow>
                lft (db' ! i) = lft p \<and> rgt (db' ! i) - lft (db' ! i) = rgt p - lft p + 2)
          \<and> (\<forall>i<length db. name (db ! i) \<noteq> doc_name d \<and> lft (db ! i) < rgt p \<and> rgt (db ! i) < rgt p \<longrightarrow>
                db' ! i = db ! i)"
proof -
  have tgt: "add_node_target db d parent_arg = Inr (rgt p)"
    using par bounds ok by (simp add: add_node_target_def)
  have p: "p \<in> set db" "name p = parent_arg" using sql_select_hd_mem[OF par(2)] by auto
  then have pn: "name p \<noteq> doc_name d"
    using ok by (auto simp: validate_loop_passes)
  show ?thesis
    unfolding update_add_node_after_target[OF tgt]
    using pn bounds(2) by (auto simp: nth_sql_update nth_widen widen_untouched)
qed

theorem insert_under_parent_witness:
  "fst (update_add_node 1 fixture_with_C doc_C ''B'') = Inr 9
   \<and> lft (snd (update_add_node 1 fixture_with_C doc_C ''B'') ! 5) = 9
   \<and> rgt (snd (update_add_node 1 fixture_with_C doc_C ''B'') ! 5) = 10
   \<and> rgt (snd (update_add_node 1 fixture_with_C doc_C ''B'') ! 3)
       - lft (snd (update_add_node 1 fixture_with_C doc_C ''B'') ! 3) = 5
   \<and> snd (update_add_node 1 fixture_with_C doc_C ''B'') ! 1 = fixture_with_C ! 1"
proof -
  have a: "''B'' \<noteq> []" by simp
  have b: "sql_select (\<lambda>x. name x = ''B'') fixture_with_C = fixture_with_C ! 3 # []" by code_simp
  have c: "rgt (fixture_with_C ! 3) \<noteq> 0" "lft (fixture_with_C ! 3) < rgt (fixture_with_C ! 3)"
    by code_simp+
  have e: "validate_loop fixture_with_C (doc_name doc_C) (lft (fixture_with_C ! 3)) (rgt (fixture_with_C ! 3)) = Inr ()"
    by code_simp
  have v: "rgt (fixture_with_C ! 3) = 9" "lft (fixture_with_C ! 3) = 6" by code_simp+
  have i: "(5::nat) < length fixture_with_C" "name (fixture_with_C ! 5) = doc_name doc_C"
    "(3::nat) < length fixture_with_C"
    "(1::nat) < length fixture_with_C" "name (fixture_with_C ! 1) \<noteq> doc_name doc_C"
    "lft (fixture_with_C ! 1) < 9" "rgt (fixture_with_C ! 1) < 9"
    by code_simp+
  from insert_under_parent[OF a b c e, of 1] obtain db' where
    r: "update_add_node 1 fixture_with_C doc_C ''B'' = (Inr (rgt (fixture_with_C ! 3)), db')"
    and n: "\<forall>i<length fixture_with_C. name (fixture_with_C ! i) = doc_name doc_C \<longrightarrow>
              lft (db' ! i) = rgt (fixture_with_C ! 3) \<and> rgt (db' ! i) = rgt (fixture_with_C ! 3) + 1"
    and w: "\<forall>i<length fixture_with_C. fixture_with_C ! i = fixture_with_C ! 3 \<longrightarrow>
              lft (db' ! i) = lft (fixture_with_C ! 3) \<and>
              rgt (db' ! i) - lft (db' ! i) = rgt (fixture_with_C ! 3) - lft (fixture_with_C ! 3) + 2"
    and u: "\<forall>i<length fixture_with_C. name (fixture_with_C ! i) \<noteq> doc_name doc_C \<and>
              lft (fixture_with_C ! i) < rgt (fixture_with_C ! 3) \<and>
              rgt (fixture_with_C ! i) < rgt (fixture_with_C ! 3) \<longrightarrow> db' ! i = fixture_with_C ! i"
    by blast
  show ?thesis
    using r n[rule_format, OF i(1,2)] w[rule_format, OF i(3) refl] u[rule_format, OF i(4)] i(5,6,7) v
    by simp
qed

section \<open>Relocation\<close>

lemma length_move_steps [simp]:
  "length (move_to_dark_side t dl dr db) = length db"
  "length (shift_left t dl dr diff db) = length db"
  "length (shift_right t pn np diff db) = length db"
  "length (bring_back t nd db) = length db"
  by (simp_all add: move_to_dark_side_def shift_left_def shift_right_def bring_back_def)

lemma name_move_steps:
  assumes "i < length db"
  shows "name (move_to_dark_side t dl dr db ! i) = name (db ! i)"
    and "name (shift_left t dl dr diff db ! i) = name (db ! i)"
    and "name (shift_right t pn np diff db ! i) = name (db ! i)"
    and "name (bring_back t nd db ! i) = name (db ! i)"
  using assms
  by (simp_all add: move_to_dark_side_def shift_left_def shift_right_def bring_back_def nth_sql_update)

text \<open>A row of the moved subtree through the steps, and a row outside it.\<close>

lemma dark_side_subtree:
  assumes "i < length db" "dl \<le> lft (db ! i)" "rgt (db ! i) \<le> dr"
  shows "lft (move_to_dark_side t dl dr db ! i) = - lft (db ! i)"
    and "rgt (move_to_dark_side t dl dr db ! i) = - rgt (db ! i)"
  using assms by (simp_all add: move_to_dark_side_def nth_sql_update)

lemma dark_side_outside:
  assumes "i < length db" "\<not> (dl \<le> lft (db ! i) \<and> rgt (db ! i) \<le> dr)"
  shows "move_to_dark_side t dl dr db ! i = db ! i"
  using assms by (auto simp add: move_to_dark_side_def nth_sql_update)

lemma shift_left_dark:
  assumes "i < length db" "lft (db ! i) < 0" "rgt (db ! i) < 0" "0 \<le> dr"
  shows "lft (shift_left t dl dr diff db ! i) = lft (db ! i)"
    and "rgt (shift_left t dl dr diff db ! i) = rgt (db ! i)"
  using assms by (simp_all add: shift_left_def nth_sql_update)

lemma shift_left_rgt:
  assumes "i < length db" "diff = dr - dl + 1"
  shows "rgt (shift_left t dl dr diff db ! i) =
           (if dr < lft (db ! i) \<or> (lft (db ! i) < dl \<and> dr < rgt (db ! i))
            then rgt (db ! i) - diff else rgt (db ! i))"
  using assms by (auto simp add: shift_left_def nth_sql_update)

lemma shift_right_dark:
  assumes "i < length db" "lft (db ! i) < 0" "rgt (db ! i) < 0" "0 \<le> rgt np" "name (db ! i) \<noteq> pn"
  shows "lft (shift_right t pn np diff db ! i) = lft (db ! i)"
    and "rgt (shift_right t pn np diff db ! i) = rgt (db ! i)"
  using assms by (simp_all add: shift_right_def nth_sql_update)

lemma bring_back_dark:
  assumes "i < length db" "lft (db ! i) < 0"
  shows "lft (bring_back t nd db ! i) = - lft (db ! i) + nd"
    and "rgt (bring_back t nd db ! i) = - rgt (db ! i) + nd"
  using assms by (simp_all add: bring_back_def nth_sql_update)

lemma moved_subtree_translated:
  assumes valid: "valid_bounds db"
    and dist: "distinct (map name db)"
    and doc: "doc_lft d = Some dl" "doc_rgt d = Some dr"
    and sync: "k < length db" "name (db ! k) = doc_name d" "lft (db ! k) = dl" "rgt (db ! k) = dr"
    and mv: "update_move_node t db d = (Inr (), db')"
  shows "\<exists>nd. \<forall>i<length db. dl \<le> lft (db ! i) \<and> rgt (db ! i) \<le> dr \<longrightarrow>
           name (db' ! i) = name (db ! i) \<and>
           lft (db' ! i) = lft (db ! i) + nd \<and> rgt (db' ! i) = rgt (db ! i) + nd"
proof -
  define diff where "diff = dr - dl + 1"
  define db1 where "db1 = move_to_dark_side t dl dr db"
  define db3 where "db3 = shift_left t dl dr diff db1"
  have pos: "0 < lft (db ! i)" "lft (db ! i) < rgt (db ! i)" if "i < length db" for i
    using valid that by (auto simp: valid_bounds_def)
  have dl: "0 < dl" "dl < dr" using pos[OF sync(1)] sync by auto
  have sub3: "lft (db3 ! i) = - lft (db ! i) \<and> rgt (db3 ! i) = - rgt (db ! i)"
    if "i < length db" "dl \<le> lft (db ! i)" "rgt (db ! i) \<le> dr" for i
    using that dl pos[of i] unfolding db3_def db1_def
    by (simp add: shift_left_dark dark_side_subtree)
  have nm3: "name (db3 ! i) = name (db ! i)" if "i < length db" for i
    using that by (simp add: db3_def db1_def name_move_steps)
  have len3: "length db3 = length db" by (simp add: db3_def db1_def)
  show ?thesis
  proof (cases "truthy (doc_parent d)")
    case True
    define pn where "pn = or_empty (doc_parent d)"
    from mv True doc obtain np rest where sel: "sql_select (\<lambda>x. name x = pn) db = np # rest"
      and vl: "validate_loop db (doc_name d) (lft np) (rgt np) = Inr ()"
      by (auto simp: update_move_node_def pn_def split: list.splits sum.splits)
    from mv True doc sel vl obtain np3 rest3
      where sel3: "sql_select (\<lambda>x. name x = pn) db3 = np3 # rest3"
        and db': "db' = bring_back t (rgt np3 - dl) (shift_right t pn np3 diff db3)"
      by (auto simp: update_move_node_def pn_def Let_def db3_def db1_def diff_def split: list.splits)
    obtain j where j: "j < length db" "db3 ! j = np3" "name np3 = pn"
      using sql_select_first_index[OF sel3] len3 by auto
    have nj: "name (db ! j) = pn" using j nm3[of j] by simp
    obtain j' where j': "j' < length db" "db ! j' = np" "name np = pn"
      using sql_select_first_index[OF sel] by auto
    have "j' = j" using distinct_name_eq[OF dist j'(1) j(1)] nj j' by simp
    then have np: "db ! j = np" using j' by simp
    have out: "\<not> (dl \<le> lft (db ! j) \<and> rgt (db ! j) \<le> dr)"
      using vl sync np nth_mem[OF sync(1)] by (auto simp: validate_loop_passes)
    have np3_pos: "0 < rgt np3"
    proof -
      have "db1 ! j = db ! j" unfolding db1_def using out j(1) by (rule dark_side_outside[rotated])
      then have "rgt (db3 ! j) = (if dr < lft (db ! j) \<or> (lft (db ! j) < dl \<and> dr < rgt (db ! j))
                                  then rgt (db ! j) - diff else rgt (db ! j))"
        unfolding db3_def using j(1) by (simp add: shift_left_rgt db1_def diff_def)
      then show ?thesis using pos[OF j(1)] dl j(2) by (auto simp: diff_def split: if_splits)
    qed
    have "name (db' ! i) = name (db ! i) \<and>
          lft (db' ! i) = lft (db ! i) + (rgt np3 - dl) \<and> rgt (db' ! i) = rgt (db ! i) + (rgt np3 - dl)"
      if i: "i < length db" "dl \<le> lft (db ! i)" "rgt (db ! i) \<le> dr" for i
    proof -
      have ne: "name (db3 ! i) \<noteq> pn"
      proof
        assume "name (db3 ! i) = pn"
        then have "name (db ! i) = name (db ! j)" using nj nm3[OF i(1)] by simp
        then have "i = j" using distinct_name_eq[OF dist i(1) j(1)] by simp
        then show False using out i by simp
      qed
      have neg: "lft (db3 ! i) < 0" "rgt (db3 ! i) < 0" using sub3[OF i] pos[OF i(1)] dl i by auto
      have i3: "i < length db3" using i(1) len3 by simp
      have "lft (shift_right t pn np3 diff db3 ! i) = lft (db3 ! i)"
           "rgt (shift_right t pn np3 diff db3 ! i) = rgt (db3 ! i)"
        using shift_right_dark[OF i3 neg _ ne, of np3 t diff] np3_pos by simp_all
      then show ?thesis
        unfolding db' using i3 neg sub3[OF i] nm3[OF i(1)]
        by (simp add: bring_back_dark name_move_steps)
    qed
    then show ?thesis by blast
  next
    case False
    from mv False doc obtain m where db': "db' = bring_back t (m + 1 - dl) db3"
      by (auto simp: update_move_node_def Let_def db3_def db1_def diff_def split: option.splits)
    have "name (db' ! i) = name (db ! i) \<and>
          lft (db' ! i) = lft (db ! i) + (m + 1 - dl) \<and> rgt (db' ! i) = rgt (db ! i) + (m + 1 - dl)"
      if i: "i < length db" "dl \<le> lft (db ! i)" "rgt (db ! i) \<le> dr" for i
    proof -
      have neg: "lft (db3 ! i) < 0" using sub3[OF i] pos[OF i(1)] by auto
      have i3: "i < length db3" using i(1) len3 by simp
      show ?thesis unfolding db' using i3 neg sub3[OF i] nm3[OF i(1)]
        by (simp add: bring_back_dark name_move_steps)
    qed
    then show ?thesis by blast
  qed
qed

text \<open>The second scenario of section 8 on the fixture: A(2,5), with its leaf, moves under B.\<close>

lemma move_A_under_B:
  "update_move_node 1 fixture doc_A_to_B =
     (Inr (),
      [\<lparr>name = ''R'', parent = None, old_parent = None, lft = 1, rgt = 10, modified = 1\<rparr>,
       \<lparr>name = ''A'', parent = Some ''R'', old_parent = Some ''R'', lft = 5, rgt = 8, modified = 1\<rparr>,
       \<lparr>name = ''A1'', parent = Some ''A'', old_parent = Some ''A'', lft = 6, rgt = 7, modified = 1\<rparr>,
       \<lparr>name = ''B'', parent = Some ''R'', old_parent = Some ''R'', lft = 2, rgt = 9, modified = 1\<rparr>,
       \<lparr>name = ''B1'', parent = Some ''B'', old_parent = Some ''B'', lft = 3, rgt = 4, modified = 1\<rparr>])"
  by code_simp

text \<open>
  Claim C1. The table has valid bounds and distinct keys, and the document is in step with
  its row \<open>k\<close>, whose bounds are \<open>(dl, dr)\<close>. If the relocation succeeds, one number
  \<open>new_diff\<close> is added to both bounds of every row of the moved subtree (the rows with
  \<open>dl \<le> lft\<close> and \<open>rgt \<le> dr\<close>), which keep their keys; so the offsets of each such row from
  the left bound of the subtree's own row are the same before and after.
\<close>

theorem move_preserves_subtree_shape:
  assumes "valid_bounds db" "distinct (map name db)"
    and "doc_lft d = Some dl" "doc_rgt d = Some dr"
    and "k < length db" "name (db ! k) = doc_name d" "lft (db ! k) = dl" "rgt (db ! k) = dr"
    and "update_move_node t db d = (Inr (), db')"
  shows "\<exists>new_diff. \<forall>i<length db. dl \<le> lft (db ! i) \<and> rgt (db ! i) \<le> dr \<longrightarrow>
           name (db' ! i) = name (db ! i)
         \<and> lft (db' ! i) = lft (db ! i) + new_diff \<and> rgt (db' ! i) = rgt (db ! i) + new_diff
         \<and> lft (db' ! i) - lft (db' ! k) = lft (db ! i) - lft (db ! k)
         \<and> rgt (db' ! i) - lft (db' ! k) = rgt (db ! i) - lft (db ! k)"
proof -
  obtain nd where nd: "\<forall>i<length db. dl \<le> lft (db ! i) \<and> rgt (db ! i) \<le> dr \<longrightarrow>
           name (db' ! i) = name (db ! i) \<and>
           lft (db' ! i) = lft (db ! i) + nd \<and> rgt (db' ! i) = rgt (db ! i) + nd"
    using moved_subtree_translated[OF assms] by blast
  have "lft (db' ! k) = lft (db ! k) + nd" using nd assms(5,7,8) by simp
  then show ?thesis using nd by (intro exI[of _ nd]) simp
qed

theorem move_preserves_subtree_shape_witness:
  "lft (snd (update_move_node 1 fixture doc_A_to_B) ! 2) - lft (snd (update_move_node 1 fixture doc_A_to_B) ! 1)
     = lft (fixture ! 2) - lft (fixture ! 1)
   \<and> rgt (snd (update_move_node 1 fixture doc_A_to_B) ! 2) - lft (snd (update_move_node 1 fixture doc_A_to_B) ! 1)
     = rgt (fixture ! 2) - lft (fixture ! 1)
   \<and> name (snd (update_move_node 1 fixture doc_A_to_B) ! 2) = name (fixture ! 2)"
proof -
  have a: "valid_bounds fixture" by code_simp
  have b: "distinct (map name fixture)" by code_simp
  have c: "doc_lft doc_A_to_B = Some 2" "doc_rgt doc_A_to_B = Some 5" by code_simp+
  have e: "(1::nat) < length fixture" "name (fixture ! 1) = doc_name doc_A_to_B"
    "lft (fixture ! 1) = 2" "rgt (fixture ! 1) = 5" by code_simp+
  have f: "update_move_node 1 fixture doc_A_to_B = (Inr (), snd (update_move_node 1 fixture doc_A_to_B))"
    unfolding move_A_under_B by simp
  have g: "(2::nat) < length fixture" "2 \<le> lft (fixture ! 2)" "rgt (fixture ! 2) \<le> 5" by code_simp+
  from move_preserves_subtree_shape[OF a b c e f] g show ?thesis by blast
qed

section \<open>Ancestors and descendants\<close>

lemma get_all_unlimited:
  "mset (get_all db P Lft_desc None) = mset (filter P db)"
  "sorted (rev (map lft (get_all db P Lft_desc None)))"
proof -
  show "mset (get_all db P Lft_desc None) = mset (filter P db)"
    by (simp add: get_all_def order_rows_def sql_select_def)
  have "sorted (map (\<lambda>x. - lft x) (get_all db P Lft_desc None))"
    by (simp add: get_all_def order_rows_def)
  then have "sorted (map uminus (map lft (get_all db P Lft_desc None)))"
    by (simp add: comp_def)
  then show "sorted (rev (map lft (get_all db P Lft_desc None)))"
    by (simp add: sorted_wrt_rev sorted_map sorted_wrt_map)
qed

lemma get_all_limit: "get_all db P ord (Some n) = take n (get_all db P ord None)"
  by (simp add: get_all_def)

lemma get_list_all:
  assumes "ignore_permissions \<or> (\<forall>x\<in>set db. permitted x)"
  shows "get_list permitted db P ord lim ignore_permissions = get_all db P ord lim"
proof -
  have "filter (\<lambda>x. P x \<and> (ignore_permissions \<or> permitted x)) db = filter P db"
    using assms by (auto intro: filter_cong)
  then show ?thesis by (simp add: get_list_def get_all_def sql_select_def)
qed

lemma queries_on_fixture:
  "get_ancestors_of fixture ''A1'' Lft_desc None = Inr [''A'', ''R'']"
  "get_descendants_of (\<lambda>_. True) fixture ''R'' Lft_desc None False = Inr [''B1'', ''B'', ''A1'', ''A'']"
  "get_descendants_of (\<lambda>_. True) fixture ''R'' Lft_desc (Some 2) False = Inr [''B1'', ''B'']"
  by code_simp+

text \<open>
  Claim C8. The node \<open>nm\<close> is stored, with row \<open>n\<close>. With the default order and no limit,
  \<^verbatim>\<open>get_ancestors_of\<close> returns the keys of exactly the rows with \<open>lft < lft n\<close> and
  \<open>rgt > rgt n\<close>, each once, by left bound descending; with a limit \<open>k\<close> it returns the
  first \<open>k\<close> of them. \<^verbatim>\<open>get_descendants_of\<close> does the same for the rows with \<open>lft > lft n\<close>
  and \<open>rgt < rgt n\<close>, when permissions are ignored or the user may read every row.
\<close>

theorem ancestors_descendants_by_containment:
  assumes "sql_select (\<lambda>x. name x = nm) db = n # rest"
  shows "(\<exists>anc. get_ancestors_of db nm Lft_desc None = Inr (map name anc)
            \<and> mset anc = mset (filter (\<lambda>x. lft x < lft n \<and> rgt x > rgt n) db)
            \<and> sorted (rev (map lft anc))
            \<and> (\<forall>k. get_ancestors_of db nm Lft_desc (Some k) = Inr (map name (take k anc))))
       \<and> (ignore_permissions \<or> (\<forall>x\<in>set db. permitted x) \<longrightarrow>
           (\<exists>des. get_descendants_of permitted db nm Lft_desc None ignore_permissions = Inr (map name des)
              \<and> mset des = mset (filter (\<lambda>x. lft x > lft n \<and> rgt x < rgt n) db)
              \<and> sorted (rev (map lft des))
              \<and> (\<forall>k. get_descendants_of permitted db nm Lft_desc (Some k) ignore_permissions
                        = Inr (map name (take k des)))))"
proof (intro conjI impI)
  have gv: "get_value db nm = Some (lft n, rgt n)" using assms by (simp add: get_value_def)
  show "\<exists>anc. get_ancestors_of db nm Lft_desc None = Inr (map name anc)
            \<and> mset anc = mset (filter (\<lambda>x. lft x < lft n \<and> rgt x > rgt n) db)
            \<and> sorted (rev (map lft anc))
            \<and> (\<forall>k. get_ancestors_of db nm Lft_desc (Some k) = Inr (map name (take k anc)))"
    using gv
    by (intro exI[of _ "get_all db (\<lambda>x. lft x < lft n \<and> rgt x > rgt n) Lft_desc None"])
      (simp add: get_ancestors_of_def get_all_unlimited get_all_limit)
  assume perm: "ignore_permissions \<or> (\<forall>x\<in>set db. permitted x)"
  show "\<exists>des. get_descendants_of permitted db nm Lft_desc None ignore_permissions = Inr (map name des)
            \<and> mset des = mset (filter (\<lambda>x. lft x > lft n \<and> rgt x < rgt n) db)
            \<and> sorted (rev (map lft des))
            \<and> (\<forall>k. get_descendants_of permitted db nm Lft_desc (Some k) ignore_permissions
                      = Inr (map name (take k des)))"
    using gv
    by (intro exI[of _ "get_all db (\<lambda>x. lft x > lft n \<and> rgt x < rgt n) Lft_desc None"])
      (simp add: get_descendants_of_def get_list_all[OF perm] get_all_unlimited get_all_limit)
qed

theorem ancestors_descendants_by_containment_witness:
  "(\<exists>anc. get_ancestors_of fixture ''A'' Lft_desc None = Inr (map name anc)
       \<and> mset anc = mset (filter (\<lambda>x. lft x < lft (fixture ! 1) \<and> rgt x > rgt (fixture ! 1)) fixture)
       \<and> sorted (rev (map lft anc))
       \<and> (\<forall>k. get_ancestors_of fixture ''A'' Lft_desc (Some k) = Inr (map name (take k anc))))
   \<and> (\<exists>des. get_descendants_of (\<lambda>_. True) fixture ''A'' Lft_desc None False = Inr (map name des)
       \<and> mset des = mset (filter (\<lambda>x. lft x > lft (fixture ! 1) \<and> rgt x < rgt (fixture ! 1)) fixture)
       \<and> sorted (rev (map lft des))
       \<and> (\<forall>k. get_descendants_of (\<lambda>_. True) fixture ''A'' Lft_desc (Some k) False
                 = Inr (map name (take k des))))"
proof -
  have a: "sql_select (\<lambda>x. name x = ''A'') fixture = fixture ! 1 # []" by code_simp
  have b: "False \<or> (\<forall>x\<in>set fixture. (\<lambda>_. True) x)" by simp
  show ?thesis
    using ancestors_descendants_by_containment[OF a, of False "\<lambda>_. True"] b by blast
qed

section \<open>The dispatch of update_nsm\<close>

lemma set_old_parent_result:
  assumes "set_old_parent db d = (Inr (), db', d')"
  shows "db' = sql_update (\<lambda>x. name x = doc_name d) (\<lambda>x. x\<lparr>old_parent := Some (or_empty (doc_parent d))\<rparr>) db
       \<and> (\<exists>x rest. sql_select (\<lambda>x. name x = doc_name d) db' = x # rest
             \<and> doc_lft d' = Some (lft x) \<and> doc_rgt d' = Some (rgt x)
             \<and> doc_old_parent d' = Some (or_empty (doc_parent d)))"
proof -
  let ?db1 = "sql_update (\<lambda>x. name x = doc_name d) (\<lambda>x. x\<lparr>old_parent := Some (or_empty (doc_parent d))\<rparr>) db"
  from assms have db': "db' = ?db1"
    by (auto simp: set_old_parent_def Let_def split: sum.splits)
  from assms obtain x rest where sel: "sql_select (\<lambda>x. name x = doc_name d) ?db1 = x # rest"
    and d': "d' = \<lparr>doc_name = name x, doc_parent = parent x, doc_old_parent = old_parent x,
                   doc_lft = Some (lft x), doc_rgt = Some (rgt x)\<rparr>"
    by (auto simp: set_old_parent_def Let_def reload_def split: sum.splits list.splits)
  have "x \<in> set ?db1" "name x = doc_name d" using sql_select_hd_mem[OF sel] by auto
  then have "old_parent x = Some (or_empty (doc_parent d))"
    by (auto simp: sql_update_def split: if_splits)
  then show ?thesis using db' sel d' by simp
qed

lemma set_old_parent_bounds:
  "map (\<lambda>x. (name x, lft x, rgt x)) (fst (snd (set_old_parent db d))) = map (\<lambda>x. (name x, lft x, rgt x)) db"
  by (auto simp: set_old_parent_def Let_def sql_update_def split: sum.splits)

lemma update_nsm_on_fixture:
  "update_nsm 1 fixture doc_A_to_B =
     (Inr (),
      [\<lparr>name = ''R'', parent = None, old_parent = None, lft = 1, rgt = 10, modified = 1\<rparr>,
       \<lparr>name = ''A'', parent = Some ''R'', old_parent = Some ''B'', lft = 5, rgt = 8, modified = 1\<rparr>,
       \<lparr>name = ''A1'', parent = Some ''A'', old_parent = Some ''A'', lft = 6, rgt = 7, modified = 1\<rparr>,
       \<lparr>name = ''B'', parent = Some ''R'', old_parent = Some ''R'', lft = 2, rgt = 9, modified = 1\<rparr>,
       \<lparr>name = ''B1'', parent = Some ''B'', old_parent = Some ''B'', lft = 3, rgt = 4, modified = 1\<rparr>],
      \<lparr>doc_name = ''A'', doc_parent = Some ''R'', doc_old_parent = Some ''B'',
        doc_lft = Some 5, doc_rgt = Some 8\<rparr>)"
  by code_simp

text \<open>
  What \<^verbatim>\<open>update_nsm\<close> does, branch by branch. With both bounds of the document falsy it
  is the insertion with \<open>parent or ''\<close>. Otherwise, with \<open>old_parent != parent\<close> in Python's
  sense (None and the empty string differ), it is the relocation. Otherwise it changes no
  bound. Whenever it returns, the rows of the document carry \<open>parent or ''\<close> as old
  parent, which is not the declared parent when that is None, and the document returned
  has the bounds and the old parent of its row.
\<close>

lemma update_nsm_branches:
  "(unset (doc_lft d) \<and> unset (doc_rgt d) \<longrightarrow>
      update_nsm t db d =
        (case update_add_node t db d (or_empty (doc_parent d)) of
           (Inl e, db') \<Rightarrow> (Inl e, db', d)
         | (Inr _, db') \<Rightarrow> set_old_parent db' d))
   \<and> (\<not> (unset (doc_lft d) \<and> unset (doc_rgt d)) \<and> doc_old_parent d \<noteq> doc_parent d \<longrightarrow>
      update_nsm t db d =
        (case update_move_node t db d of
           (Inl e, db') \<Rightarrow> (Inl e, db', d)
         | (Inr _, db') \<Rightarrow> set_old_parent db' d))
   \<and> (\<not> (unset (doc_lft d) \<and> unset (doc_rgt d)) \<and> doc_old_parent d = doc_parent d \<longrightarrow>
      update_nsm t db d = set_old_parent db d
      \<and> map (\<lambda>x. (name x, lft x, rgt x)) (fst (snd (update_nsm t db d)))
          = map (\<lambda>x. (name x, lft x, rgt x)) db)
   \<and> (update_nsm t db d = (Inr (), db', d') \<longrightarrow>
        (\<forall>x\<in>set db'. name x = doc_name d \<longrightarrow> old_parent x = Some (or_empty (doc_parent d)))
        \<and> (\<exists>x rest. sql_select (\<lambda>x. name x = doc_name d) db' = x # rest
              \<and> doc_lft d' = Some (lft x) \<and> doc_rgt d' = Some (rgt x)
              \<and> doc_old_parent d' = Some (or_empty (doc_parent d))))"
proof (intro conjI impI)
  assume ok: "update_nsm t db d = (Inr (), db', d')"
  then obtain dbm where s: "set_old_parent dbm d = (Inr (), db', d')"
    by (auto simp: update_nsm_def split: if_splits prod.splits sum.splits)
  from set_old_parent_result[OF s]
  show "\<forall>x\<in>set db'. name x = doc_name d \<longrightarrow> old_parent x = Some (or_empty (doc_parent d))"
    by (auto simp: sql_update_def)
  from set_old_parent_result[OF s]
  show "\<exists>x rest. sql_select (\<lambda>x. name x = doc_name d) db' = x # rest
              \<and> doc_lft d' = Some (lft x) \<and> doc_rgt d' = Some (rgt x)
              \<and> doc_old_parent d' = Some (or_empty (doc_parent d))"
    by blast
qed (auto simp add: update_nsm_def set_old_parent_bounds)

lemma update_nsm_branches_on_fixture:
  "update_nsm 1 fixture_with_C doc_C =
     (case update_add_node 1 fixture_with_C doc_C (or_empty (doc_parent doc_C)) of
        (Inl e, db') \<Rightarrow> (Inl e, db', doc_C)
      | (Inr _, db') \<Rightarrow> set_old_parent db' doc_C)
   \<and> update_nsm 1 fixture doc_A_to_B =
     (case update_move_node 1 fixture doc_A_to_B of
        (Inl e, db') \<Rightarrow> (Inl e, db', doc_A_to_B)
      | (Inr _, db') \<Rightarrow> set_old_parent db' doc_A_to_B)
   \<and> update_nsm 1 fixture doc_A = set_old_parent fixture doc_A
   \<and> map (\<lambda>x. (name x, lft x, rgt x)) (fst (snd (update_nsm 1 fixture doc_A)))
        = map (\<lambda>x. (name x, lft x, rgt x)) fixture
   \<and> old_parent (fst (snd (update_nsm 1 fixture doc_A_to_B)) ! 1)
        = Some (or_empty (doc_parent doc_A_to_B))
   \<and> (\<exists>x rest. sql_select (\<lambda>x. name x = doc_name doc_A_to_B) (fst (snd (update_nsm 1 fixture doc_A_to_B)))
                  = x # rest
         \<and> doc_lft (snd (snd (update_nsm 1 fixture doc_A_to_B))) = Some (lft x)
         \<and> doc_rgt (snd (snd (update_nsm 1 fixture doc_A_to_B))) = Some (rgt x)
         \<and> doc_old_parent (snd (snd (update_nsm 1 fixture doc_A_to_B)))
             = Some (or_empty (doc_parent doc_A_to_B)))"
proof -
  have a: "unset (doc_lft doc_C) \<and> unset (doc_rgt doc_C)" by code_simp
  have b: "\<not> (unset (doc_lft doc_A_to_B) \<and> unset (doc_rgt doc_A_to_B))
             \<and> doc_old_parent doc_A_to_B \<noteq> doc_parent doc_A_to_B" by code_simp
  have c: "\<not> (unset (doc_lft doc_A) \<and> unset (doc_rgt doc_A))
             \<and> doc_old_parent doc_A = doc_parent doc_A" by code_simp
  have e: "update_nsm 1 fixture doc_A_to_B =
             (Inr (), fst (snd (update_nsm 1 fixture doc_A_to_B)), snd (snd (update_nsm 1 fixture doc_A_to_B)))"
    unfolding update_nsm_on_fixture by simp
  note i1 = update_nsm_branches[where d = doc_C and t = 1 and db = fixture_with_C,
      THEN conjunct1, rule_format, OF a]
  note i2 = update_nsm_branches[where d = doc_A_to_B and t = 1 and db = fixture,
      THEN conjunct2, THEN conjunct1, rule_format, OF b]
  note i3 = update_nsm_branches[where d = doc_A and t = 1 and db = fixture,
      THEN conjunct2, THEN conjunct2, THEN conjunct1, rule_format, OF c]
  note i4 = update_nsm_branches[where d = doc_A_to_B and t = 1 and db = fixture,
      THEN conjunct2, THEN conjunct2, THEN conjunct2, rule_format, OF e]
  have m: "fst (snd (update_nsm 1 fixture doc_A_to_B)) ! 1
             \<in> set (fst (snd (update_nsm 1 fixture doc_A_to_B)))"
    unfolding update_nsm_on_fixture by simp
  have n: "name (fst (snd (update_nsm 1 fixture doc_A_to_B)) ! 1) = doc_name doc_A_to_B"
    unfolding update_nsm_on_fixture by (simp add: doc_A_to_B_def doc_A_def)
  note i5 = i4[THEN conjunct1, rule_format, OF m n]
  show ?thesis
    by (intro conjI) (rule i1 i2 i3[THEN conjunct1] i3[THEN conjunct2] i5 i4[THEN conjunct2])+
qed

text \<open>
  Claim C9. The code departs from the claim for a root whose parent is None. Line 48
  records the parent itself in memory, but line 49 writes \<open>parent or ''\<close> to the store and
  line 51 reloads the document from the store. So the first synchronisation of R, on the
  no-op branch, records the empty string as old parent while the declared parent is None.
  The second synchronisation, with the parent still None, finds \<open>'' != None\<close> and calls the
  relocation: R moves from (1,2) to (3,4) and S from (3,4) to (1,2), although no parent
  has changed.
\<close>

theorem resync_of_root_relocates:
  "update_nsm 1 two_roots doc_R =
     (Inr (),
      [\<lparr>name = ''R'', parent = None, old_parent = Some [], lft = 1, rgt = 2, modified = 0\<rparr>,
       \<lparr>name = ''S'', parent = None, old_parent = None, lft = 3, rgt = 4, modified = 0\<rparr>],
      \<lparr>doc_name = ''R'', doc_parent = None, doc_old_parent = Some [],
        doc_lft = Some 1, doc_rgt = Some 2\<rparr>)
   \<and> update_nsm 2
       [\<lparr>name = ''R'', parent = None, old_parent = Some [], lft = 1, rgt = 2, modified = 0\<rparr>,
        \<lparr>name = ''S'', parent = None, old_parent = None, lft = 3, rgt = 4, modified = 0\<rparr>]
       \<lparr>doc_name = ''R'', doc_parent = None, doc_old_parent = Some [],
         doc_lft = Some 1, doc_rgt = Some 2\<rparr> =
     (Inr (),
      [\<lparr>name = ''R'', parent = None, old_parent = Some [], lft = 3, rgt = 4, modified = 2\<rparr>,
       \<lparr>name = ''S'', parent = None, old_parent = None, lft = 1, rgt = 2, modified = 2\<rparr>],
      \<lparr>doc_name = ''R'', doc_parent = None, doc_old_parent = Some [],
        doc_lft = Some 3, doc_rgt = Some 4\<rparr>)"
  by code_simp

section \<open>Rebuilding the tree\<close>

lemma assign_simps [simp]:
  "assign t [] db = db"
  "assign t (as @ bs) db = assign t bs (assign t as db)"
  "assign t [(k, l, r)] db = sql_update (\<lambda>x. name x = k) (\<lambda>x. x\<lparr>lft := l, rgt := r, modified := t\<rparr>) db"
  by (simp_all add: assign_def)

lemma children_skeleton:
  "map name (sql_select (\<lambda>x. parent x = Some k) db) = map fst (filter (\<lambda>y. snd y = Some k) (skeleton db))"
  by (induction db) (simp_all add: sql_select_def skeleton_def)

lemma skeleton_sql_update:
  assumes "\<And>x. name (f x) = name x" "\<And>x. parent (f x) = parent x"
  shows "skeleton (sql_update P f db) = skeleton db"
  using assms by (simp add: skeleton_def sql_update_def)

lemma skeleton_assign [simp]: "skeleton (assign t as db) = skeleton db"
  by (induction as arbitrary: db) (auto simp: assign_def skeleton_sql_update)

lemma euler_skeleton:
  "skeleton db' = skeleton db \<Longrightarrow> euler_node n db' k c = euler_node n db k c"
  "skeleton db' = skeleton db \<Longrightarrow> euler_children n db' cs c = euler_children n db cs c"
  by (induction n db k c and n db cs c rule: euler_node_euler_children.induct)
     (simp_all add: children_skeleton split: option.splits)

lemma rebuild_euler:
  "rebuild_node n t db k c = map_option (\<lambda>(as, c'). (assign t as db, c')) (euler_node n db k c)"
  "rebuild_children n t cs db c = map_option (\<lambda>(as, c'). (assign t as db, c')) (euler_children n db cs c)"
proof (induction n t db k c and n t cs db c rule: rebuild_node_rebuild_children.induct)
  case (1 t db p left)
  show ?case by simp
next
  case (2 n t db p left)
  then show ?case by (auto split: option.splits)
next
  case (3 n t db right)
  show ?case by simp
next
  case (4 n t c cs db right)
  show ?case
  proof (cases "euler_node n db c right")
    case None
    then show ?thesis using 4(1) by simp
  next
    case (Some a)
    obtain as c' where a: "a = (as, c')" by (cases a)
    have r: "rebuild_node n t db c right = Some (assign t as db, c')" using 4(1) Some a by simp
    have "rebuild_children n t cs (assign t as db) c' =
      map_option (\<lambda>(bs, c''). (assign t bs (assign t as db), c'')) (euler_children n (assign t as db) cs c')"
      using 4(2)[OF r refl] by simp
    then show ?thesis using r Some a
      by (auto simp: euler_skeleton(2)[OF skeleton_assign] split: option.splits)
  qed
qed

lemma chain_names: "chain db ps \<Longrightarrow> set ps \<subseteq> name ` set db"
  by (induction db ps rule: chain.induct) auto

lemma chain_member_parent:
  "chain db ps \<Longrightarrow> c \<in> set ps \<Longrightarrow>
     \<exists>x\<in>set db. name x = c \<and> (is_root x \<or> (\<exists>q\<in>set (tl ps). parent x = Some q))"
  by (induction db ps rule: chain.induct) auto

lemma chain_length:
  assumes "chain db ps" "distinct ps"
  shows "length ps \<le> length db"
proof -
  have "length ps = card (set ps)" using assms(2) by (simp add: distinct_card)
  also have "\<dots> \<le> card (name ` set db)" using chain_names[OF assms(1)] by (simp add: card_mono)
  also have "\<dots> \<le> length db" by (metis card_image_le card_length le_trans List.finite_set)
  finally show ?thesis .
qed

lemma child_not_in_chain:
  assumes wf: "wf_names db" and ch: "chain db (p # ps)" and d: "distinct (p # ps)"
    and x: "x \<in> set db" "parent x = Some p"
  shows "name x \<notin> set (p # ps)"
proof
  assume "name x \<in> set (p # ps)"
  from chain_member_parent[OF ch this]
  obtain y where y: "y \<in> set db" "name y = name x"
      "is_root y \<or> (\<exists>q\<in>set ps. parent y = Some q)"
    by auto
  have dn: "distinct (map name db)" using wf by (simp add: wf_names_def)
  have "y = x" by (rule same_name_same_row[OF dn y(1) x(1) y(2)])
  moreover have "p \<in> set (map name db)" using chain_names[OF ch] by simp
  then have "p \<noteq> []" using wf unfolding wf_names_def by metis
  ultimately show False using y(3) x(2) d by (auto simp: is_root_def)
qed

lemma chain_child:
  assumes "chain db (p # ps)" "x \<in> set db" "parent x = Some p"
  shows "chain db (name x # p # ps)"
  using assms by auto

lemma euler_total_aux:
  "wf_names db \<Longrightarrow> chain db (k # ps) \<Longrightarrow> distinct (k # ps) \<Longrightarrow> length db < length (k # ps) + n
     \<Longrightarrow> euler_node n db k c \<noteq> None"
  "wf_names db \<Longrightarrow> chain db (p # qs) \<Longrightarrow> distinct (p # qs) \<Longrightarrow> length db < length (p # qs) + 1 + n
     \<Longrightarrow> \<forall>c\<in>set cs. \<exists>x\<in>set db. name x = c \<and> parent x = Some p
     \<Longrightarrow> euler_children n db cs c \<noteq> None"
proof (induction n db k c and n db cs c arbitrary: ps and p qs rule: euler_node_euler_children.induct)
  case (1 db k counter)
  then show ?case using chain_length[of db "k # ps"] by simp
next
  case (2 n db k counter)
  have "euler_children n db (map name (sql_select (\<lambda>x. parent x = Some k) db)) (counter + 1) \<noteq> None"
    using 2(2-5) by (intro 2(1)[of k ps]) (auto simp: sql_select_def)
  then show ?case by (auto split: option.splits)
next
  case (3 n db counter)
  show ?case by simp
next
  case (4 n db c cs counter)
  obtain x where x: "x \<in> set db" "name x = c" "parent x = Some p" using 4(7) by auto
  have d: "distinct (c # p # qs)" using child_not_in_chain[OF 4(3,4,5) x(1,3)] 4(5) x(2) by simp
  have "euler_node n db c counter \<noteq> None"
    using 4(3,4,6) x d by (intro 4(1)[of "p # qs"]) auto
  then obtain as c' where a: "euler_node n db c counter = Some (as, c')" by auto
  have "euler_children n db cs c' \<noteq> None"
    using 4(3-7) by (intro 4(2)[OF a refl, of p qs]) auto
  then show ?case using a by (auto split: option.splits)
qed

lemma euler_roots_total:
  assumes "wf_names db" "length db \<le> n" "\<forall>r\<in>set rs. \<exists>x\<in>set db. name x = r \<and> is_root x"
  shows "euler_children n db rs c \<noteq> None"
  using assms(3)
proof (induction rs arbitrary: c)
  case Nil
  show ?case by simp
next
  case (Cons r rs)
  have "euler_node n db r c \<noteq> None"
    using Cons.prems assms(1,2) by (intro euler_total_aux(1)[of db r "[]"]) auto
  then obtain as c' where a: "euler_node n db r c = Some (as, c')" by auto
  have "euler_children n db rs c' \<noteq> None" using Cons by simp
  then show ?case using a by (auto split: option.splits)
qed

lemma desc_of_child:
  assumes "desc_of db c x" "r \<in> set db" "name r = c" "parent r = Some k"
  shows "desc_of db k x"
  using assms
proof (induction rule: desc_of.induct)
  case self
  then show ?case using desc_of.step[OF desc_of.self] by blast
next
  case (step y x)
  then show ?case using desc_of.step by blast
qed

lemma desc_of_cases:
  assumes "desc_of db b z"
  shows "z = b \<or> (\<exists>x\<in>set db. name x = z \<and> (\<exists>y. parent x = Some y \<and> desc_of db b y))"
  using assms by (cases rule: desc_of.cases) auto

lemma desc_of_comparable:
  assumes dn: "distinct (map name db)" and a: "desc_of db a x" and b: "desc_of db b x"
  shows "desc_of db a b \<or> desc_of db b a"
  using a b
proof (induction rule: desc_of.induct)
  case self
  then show ?case by simp
next
  case (step y x)
  from desc_of_cases[OF step.prems] show ?case
  proof
    assume "name x = b"
    then show ?thesis using desc_of.step[OF step.hyps] by blast
  next
    assume "\<exists>x'\<in>set db. name x' = name x \<and> (\<exists>y. parent x' = Some y \<and> desc_of db b y)"
    then obtain x' y' where x': "x' \<in> set db" "name x' = name x" "parent x' = Some y'" "desc_of db b y'"
      by blast
    have "x' = x" by (rule same_name_same_row[OF dn x'(1) step.hyps(2) x'(2)])
    then have "y' = y" using x'(3) step.hyps(3) by simp
    then show ?thesis using step.IH x'(4) by simp
  qed
qed

lemma desc_of_chain:
  assumes wf: "wf_names db" and c: "c \<in> set (map name db)"
    and d: "desc_of db c p" and ch: "chain db (p # ps)"
  shows "c \<in> set (p # ps)"
  using d ch
proof (induction arbitrary: ps rule: desc_of.induct)
  case self
  then show ?case by simp
next
  case (step y x)
  have dn: "distinct (map name db)" using wf by (simp add: wf_names_def)
  show ?case
  proof (cases ps)
    case Nil
    then obtain r where r: "r \<in> set db" "name r = name x" "is_root r" using step.prems by auto
    have "r = x" by (rule same_name_same_row[OF dn r(1) step.hyps(2) r(2)])
    then have "y = []" using r(3) step.hyps(3) by (simp add: is_root_def)
    then have "c = [] \<or> (\<exists>x\<in>set db. name x = [])" using desc_of_cases[OF step.hyps(1)] by auto
    then have False using wf c unfolding wf_names_def by (metis image_eqI set_map)
    then show ?thesis ..
  next
    case (Cons q qs)
    then obtain r where r: "r \<in> set db" "name r = name x" "parent r = Some q" and ch': "chain db (q # qs)"
      using step.prems by auto
    have "r = x" by (rule same_name_same_row[OF dn r(1) step.hyps(2) r(2)])
    then have "q = y" using r(3) step.hyps(3) by simp
    then have "c \<in> set (q # qs)" using step.IH[of qs] ch' by simp
    then show ?thesis using Cons by simp
  qed
qed

lemma siblings_disjoint_aux:
  assumes wf: "wf_names db" and ch: "chain db (p # ps)" "distinct (p # ps)"
    and r1: "r1 \<in> set db" "parent r1 = Some p"
    and r2: "r2 \<in> set db" "parent r2 = Some p"
    and ne: "name r1 \<noteq> name r2"
    and d: "desc_of db (name r1) (name r2)"
  shows False
proof -
  have dn: "distinct (map name db)" using wf by (simp add: wf_names_def)
  from desc_of_cases[OF d] ne obtain x y where x: "x \<in> set db" "name x = name r2" "parent x = Some y"
      "desc_of db (name r1) y" by auto
  have "x = r2" by (rule same_name_same_row[OF dn x(1) r2(1) x(2)])
  then have "desc_of db (name r1) p" using x r2 by simp
  then have "name r1 \<in> set (p # ps)"
    using desc_of_chain[OF wf _ _ ch(1)] r1(1) by simp
  then show False using child_not_in_chain[OF wf ch r1] by simp
qed

lemma siblings_disjoint:
  assumes wf: "wf_names db" and ch: "chain db (p # ps)" "distinct (p # ps)"
    and r1: "r1 \<in> set db" "parent r1 = Some p"
    and r2: "r2 \<in> set db" "parent r2 = Some p"
    and ne: "name r1 \<noteq> name r2"
    and d: "desc_of db (name r1) x" "desc_of db (name r2) x"
  shows False
proof -
  have dn: "distinct (map name db)" using wf by (simp add: wf_names_def)
  from desc_of_comparable[OF dn d] show False
    using siblings_disjoint_aux[OF wf ch r1 r2 ne] siblings_disjoint_aux[OF wf ch r2 r1 ne[symmetric]]
    by blast
qed

lemma roots_disjoint:
  assumes wf: "wf_names db"
    and r1: "r1 \<in> set db" "is_root r1" and r2: "r2 \<in> set db" "is_root r2"
    and ne: "name r1 \<noteq> name r2"
    and d: "desc_of db (name r1) x" "desc_of db (name r2) x"
  shows False
proof -
  have dn: "distinct (map name db)" using wf by (simp add: wf_names_def)
  have no: "\<not> desc_of db (name a) (name b)"
    if a: "a \<in> set db" and b: "b \<in> set db" "is_root b" and ne: "name a \<noteq> name b" for a b
  proof
    assume "desc_of db (name a) (name b)"
    from desc_of_cases[OF this] ne obtain x y where x: "x \<in> set db" "name x = name b"
      "parent x = Some y" "desc_of db (name a) y" by auto
    have "x = b" by (rule same_name_same_row[OF dn x(1) b(1) x(2)])
    then have "y = []" using x(3) b(2) by (simp add: is_root_def)
    then have "name a = [] \<or> (\<exists>x\<in>set db. name x = [])" using desc_of_cases[OF x(4)] by auto
    then show False using wf a unfolding wf_names_def by (metis image_eqI set_map)
  qed
  from desc_of_comparable[OF dn d] show False
    using no[OF r1(1) r2 ne] no[OF r2(1) r1 ne[symmetric]] by blast
qed

lemma trace_desc:
  "euler_node n db k c = Some (as, c') \<Longrightarrow> \<forall>x\<in>fst ` set as. desc_of db k x"
  "euler_children n db cs c = Some (as, c') \<Longrightarrow> \<forall>x\<in>fst ` set as. \<exists>c\<in>set cs. desc_of db c x"
proof (induction n db k c and n db cs c arbitrary: as c' and as c' rule: euler_node_euler_children.induct)
  case (1 db k counter)
  then show ?case by simp
next
  case (2 n db k counter)
  from 2(2) obtain bs d where b: "euler_children n db (map name (sql_select (\<lambda>x. parent x = Some k) db)) (counter + 1) = Some (bs, d)"
    and as: "as = bs @ [(k, counter, d)]"
    by (auto split: option.splits)
  have "desc_of db k x" if "x \<in> fst ` set bs" for x
  proof -
    from 2(1)[OF b] that obtain c where c: "c \<in> set (map name (sql_select (\<lambda>x. parent x = Some k) db))"
      "desc_of db c x" by blast
    then obtain r where "r \<in> set db" "name r = c" "parent r = Some k" by (auto simp: sql_select_def)
    then show ?thesis using desc_of_child[OF c(2)] by blast
  qed
  then show ?case using as by (auto intro: desc_of.self)
next
  case (3 n db counter)
  then show ?case by simp
next
  case (4 n db c cs counter)
  from 4(3) obtain bs d es where b: "euler_node n db c counter = Some (bs, d)"
    and e: "euler_children n db cs d = Some (es, c')" and as: "as = bs @ es"
    by (auto split: option.splits)
  show ?case using 4(1)[OF b] 4(2)[OF b refl e] as by auto
qed

lemma arow_simps [simp]:
  "arow t [] x = x"
  "arow t ((k, l, r) # as) x = arow t as (if name x = k then x\<lparr>lft := l, rgt := r, modified := t\<rparr> else x)"
  "arow t (as @ [(k, l, r)]) x =
     (if name (arow t as x) = k then (arow t as x)\<lparr>lft := l, rgt := r, modified := t\<rparr> else arow t as x)"
  by (simp_all add: arow_def)

lemma assign_arow: "assign t as db = map (arow t as) db"
proof (induction as arbitrary: db)
  case Nil
  show ?case by simp
next
  case (Cons a as)
  obtain k l r where a: "a = (k, l, r)" by (cases a)
  have "assign t (a # as) db = assign t as (assign t [a] db)"
    using assign_simps(2)[of t "[a]" as db] by simp
  then show ?case using Cons a by (simp add: sql_update_def comp_def)
qed

lemma arow_name [simp]: "name (arow t as x) = name x"
  by (induction as arbitrary: x) auto

lemma arow_parent [simp]: "parent (arow t as x) = parent x"
  by (induction as arbitrary: x) auto

lemma arow_untouched: "name x \<notin> fst ` set as \<Longrightarrow> arow t as x = x"
  by (induction as arbitrary: x) auto

lemma arow_agrees:
  "distinct (map fst as) \<Longrightarrow> (name x, l, r) \<in> set as \<Longrightarrow> lft (arow t as x) = l \<and> rgt (arow t as x) = r"
proof (induction as arbitrary: x)
  case Nil
  then show ?case by simp
next
  case (Cons a as)
  obtain k l' r' where a: "a = (k, l', r')" by (cases a)
  show ?case
  proof (cases "a = (name x, l, r)")
    case True
    then have "name x \<notin> fst ` set as" using Cons.prems(1) by auto
    then have "arow t as (x\<lparr>lft := l, rgt := r, modified := t\<rparr>) = x\<lparr>lft := l, rgt := r, modified := t\<rparr>"
      by (intro arow_untouched) simp
    then show ?thesis using True by simp
  next
    case False
    then have in_as: "(name x, l, r) \<in> set as" using Cons.prems(2) by simp
    then have "name x \<in> fst ` set as" by force
    then have "k \<noteq> name x" using Cons.prems(1) a by auto
    then show ?thesis using Cons.IH[of x] Cons.prems(1) in_as a by simp
  qed
qed

lemma arow_idem:
  "name y = name x \<Longrightarrow> lft y = lft (arow t as x) \<Longrightarrow> rgt y = rgt (arow t as x)
     \<Longrightarrow> lft (arow t' as y) = lft y \<and> rgt (arow t' as y) = rgt y"
proof (induction as arbitrary: x y rule: rev_induct)
  case Nil
  then show ?case by simp
next
  case (snoc a as)
  obtain k l r where a: "a = (k, l, r)" by (cases a)
  show ?case
  proof (cases "name x = k")
    case True
    then show ?thesis using snoc.prems a by simp
  next
    case False
    then show ?thesis using snoc.IH[of y x] snoc.prems a by simp
  qed
qed

lemma assign_idem:
  "map (\<lambda>x. (name x, lft x, rgt x)) (assign t' as (assign t as db))
     = map (\<lambda>x. (name x, lft x, rgt x)) (assign t as db)"
  using arow_idem[OF _ refl refl] by (simp add: assign_arow)

lemma insort_key_map: "insort_key f (g x) (map g ys) = map g (insort_key (\<lambda>a. f (g a)) x ys)"
  by (induction ys) simp_all

lemma sort_key_map: "sort_key f (map g xs) = map g (sort_key (\<lambda>a. f (g a)) xs)"
  by (induction xs) (simp_all add: insort_key_map)

lemma root_names_assign:
  "map name (sort_key name (sql_select (\<lambda>x. parent x = Some [] \<or> parent x = None) (assign t as db)))
     = map name (sort_key name (sql_select (\<lambda>x. parent x = Some [] \<or> parent x = None) db))"
  by (simp add: assign_arow sql_select_def filter_map comp_def sort_key_map)

lemma rebuild_tree_euler:
  "rebuild_tree fuel t db =
     map_option (\<lambda>(as, c). assign t as db)
       (euler_children fuel db
          (map name (sort_key name (sql_select (\<lambda>x. parent x = Some [] \<or> parent x = None) db))) 1)"
  by (simp add: rebuild_tree_def rebuild_euler(2) option.map_comp comp_def split_def)

lemma rebuild_tree_idem:
  assumes "rebuild_tree fuel t db = Some db1"
  shows "\<exists>db2. rebuild_tree fuel t' db1 = Some db2
          \<and> map (\<lambda>x. (name x, lft x, rgt x)) db2 = map (\<lambda>x. (name x, lft x, rgt x)) db1"
proof -
  let ?roots = "\<lambda>db. map name (sort_key name (sql_select (\<lambda>x. parent x = Some [] \<or> parent x = None) db))"
  from assms obtain as c where e: "euler_children fuel db (?roots db) 1 = Some (as, c)"
    and db1: "db1 = assign t as db"
    by (auto simp: rebuild_tree_euler)
  have "euler_children fuel db1 (?roots db1) 1 = Some (as, c)"
    using e by (simp add: db1 root_names_assign euler_skeleton(2)[OF skeleton_assign])
  then have "rebuild_tree fuel t' db1 = Some (assign t' as db1)"
    by (simp add: rebuild_tree_euler)
  then show ?thesis using assign_idem by (simp add: db1)
qed

lemma children_distinct:
  "distinct (map name db) \<Longrightarrow> distinct (map name (sql_select P db))"
  by (simp add: sql_select_def distinct_map_filter)

lemma trace_distinct:
  "wf_names db \<Longrightarrow> chain db (k # ps) \<Longrightarrow> distinct (k # ps) \<Longrightarrow> euler_node n db k c = Some (as, c')
     \<Longrightarrow> distinct (map fst as)"
  "wf_names db \<Longrightarrow> chain db (p # qs) \<Longrightarrow> distinct (p # qs) \<Longrightarrow> distinct cs
     \<Longrightarrow> \<forall>c\<in>set cs. \<exists>x\<in>set db. name x = c \<and> parent x = Some p
     \<Longrightarrow> euler_children n db cs c = Some (as, c') \<Longrightarrow> distinct (map fst as)"
proof (induction n db k c and n db cs c arbitrary: ps as c' and p qs as c'
       rule: euler_node_euler_children.induct)
  case (1 db k counter)
  then show ?case by simp
next
  case (2 n db k counter)
  let ?cs = "map name (sql_select (\<lambda>x. parent x = Some k) db)"
  from 2(5) obtain bs d where b: "euler_children n db ?cs (counter + 1) = Some (bs, d)"
    and as: "as = bs @ [(k, counter, d)]"
    by (auto split: option.splits)
  have kids: "\<forall>c\<in>set ?cs. \<exists>x\<in>set db. name x = c \<and> parent x = Some k"
    by (auto simp: sql_select_def)
  have dcs: "distinct ?cs" using 2(2) by (simp add: wf_names_def children_distinct)
  have dbs: "distinct (map fst bs)" by (rule 2(1)[OF 2(2,3,4) dcs kids b])
  have "k \<notin> fst ` set bs"
  proof
    assume "k \<in> fst ` set bs"
    then obtain c where c: "c \<in> set ?cs" "desc_of db c k" using trace_desc(2)[OF b] by blast
    then obtain x where x: "x \<in> set db" "name x = c" "parent x = Some k" using kids by blast
    have "c \<in> set (k # ps)"
      using desc_of_chain[OF 2(2) _ c(2) 2(3)] x by auto
    then show False using child_not_in_chain[OF 2(2,3,4) x(1,3)] x(2) by simp
  qed
  then show ?case using dbs as by simp
next
  case (3 n db counter)
  then show ?case by simp
next
  case (4 n db c cs counter)
  from 4(8) obtain bs d es where b: "euler_node n db c counter = Some (bs, d)"
    and e: "euler_children n db cs d = Some (es, c')" and as: "as = bs @ es"
    by (auto split: option.splits)
  obtain x where x: "x \<in> set db" "name x = c" "parent x = Some p" using 4(7) by auto
  have d: "distinct (c # p # qs)" using child_not_in_chain[OF 4(3,4,5) x(1,3)] 4(5) x(2) by simp
  have ch: "chain db (c # p # qs)" using chain_child[OF 4(4) x(1,3)] x(2) by simp
  have dbs: "distinct (map fst bs)" by (rule 4(1)[OF 4(3) ch d b])
  have des: "distinct (map fst es)"
    using 4(6,7) by (intro 4(2)[OF b refl 4(3,4,5) _ _ e]) auto
  have "fst ` set bs \<inter> fst ` set es = {}"
  proof (rule ccontr)
    assume "fst ` set bs \<inter> fst ` set es \<noteq> {}"
    then obtain z where z: "z \<in> fst ` set bs" "z \<in> fst ` set es" by blast
    have z1: "desc_of db c z" using trace_desc(1)[OF b] z(1) by blast
    obtain c2 where c2: "c2 \<in> set cs" "desc_of db c2 z" using trace_desc(2)[OF e] z(2) by blast
    obtain y where y: "y \<in> set db" "name y = c2" "parent y = Some p" using 4(7) c2(1) by auto
    have "c \<noteq> c2" using 4(6) c2(1) by auto
    then show False
      using siblings_disjoint[OF 4(3,4,5) x(1,3) y(1,3)] x(2) y(2) z1 c2(2) by blast
  qed
  then show ?case using dbs des as by simp
qed

lemma roots_trace_distinct:
  assumes wf: "wf_names db"
  shows "distinct rs \<Longrightarrow> \<forall>r\<in>set rs. \<exists>x\<in>set db. name x = r \<and> is_root x
     \<Longrightarrow> euler_children n db rs c = Some (as, c') \<Longrightarrow> distinct (map fst as)"
proof (induction rs arbitrary: c as)
  case Nil
  then show ?case by simp
next
  case (Cons r rs)
  from Cons.prems(3) obtain bs d es where b: "euler_node n db r c = Some (bs, d)"
    and e: "euler_children n db rs d = Some (es, c')" and as: "as = bs @ es"
    by (auto split: option.splits)
  obtain x where x: "x \<in> set db" "name x = r" "is_root x" using Cons.prems(2) by auto
  have dbs: "distinct (map fst bs)"
    using x by (intro trace_distinct(1)[OF wf _ _ b, of "[]"]) auto
  have des: "distinct (map fst es)" using Cons.IH[OF _ _ e] Cons.prems by simp
  have "fst ` set bs \<inter> fst ` set es = {}"
  proof (rule ccontr)
    assume "fst ` set bs \<inter> fst ` set es \<noteq> {}"
    then obtain z where z: "z \<in> fst ` set bs" "z \<in> fst ` set es" by blast
    have z1: "desc_of db r z" using trace_desc(1)[OF b] z(1) by blast
    obtain r2 where r2: "r2 \<in> set rs" "desc_of db r2 z" using trace_desc(2)[OF e] z(2) by blast
    obtain y where y: "y \<in> set db" "name y = r2" "is_root y" using Cons.prems(2) r2(1) by auto
    have "r \<noteq> r2" using Cons.prems(1) r2(1) by auto
    then show False
      using roots_disjoint[OF wf x(1,3) y(1,3)] x(2) y(2) z1 r2(2) by blast
  qed
  then show ?case using dbs des as by simp
qed

lemma euler_counter:
  "euler_node n db k c = Some (as, c') \<Longrightarrow> (k, c, c' - 1) \<in> set as \<and> c < c' - 1"
  "euler_children n db cs c = Some (as, c') \<Longrightarrow> c \<le> c'"
proof (induction n db k c and n db cs c arbitrary: as c' and as c' rule: euler_node_euler_children.induct)
  case (1 db k counter)
  then show ?case by simp
next
  case (2 n db k counter)
  from 2(2) obtain bs d where b: "euler_children n db (map name (sql_select (\<lambda>x. parent x = Some k) db)) (counter + 1) = Some (bs, d)"
    and as: "as = bs @ [(k, counter, d)]" "c' = d + 1"
    by (auto split: option.splits)
  show ?case using 2(1)[OF b] as by simp
next
  case (3 n db counter)
  then show ?case by simp
next
  case (4 n db c cs counter)
  from 4(3) obtain bs d es where b: "euler_node n db c counter = Some (bs, d)"
    and e: "euler_children n db cs d = Some (es, c')" and as: "as = bs @ es"
    by (auto split: option.splits)
  show ?case using 4(1)[OF b] 4(2)[OF b refl e] by simp
qed

lemma euler_children_intervals:
  "euler_children n db cs c = Some (as, c') \<Longrightarrow>
     \<exists>bs. length bs = length cs
        \<and> (\<forall>i<length cs. (cs ! i, fst (bs ! i), snd (bs ! i)) \<in> set as \<and> fst (bs ! i) < snd (bs ! i))
        \<and> (cs \<noteq> [] \<longrightarrow> fst (bs ! 0) = c)
        \<and> (\<forall>i. Suc i < length cs \<longrightarrow> fst (bs ! Suc i) = snd (bs ! i) + 1)"
proof (induction cs arbitrary: c as)
  case Nil
  then show ?case by simp
next
  case (Cons k cs)
  from Cons.prems obtain es d fs where b: "euler_node n db k c = Some (es, d)"
    and e: "euler_children n db cs d = Some (fs, c')" and as: "as = es @ fs"
    by (auto split: option.splits)
  from Cons.IH[OF e] obtain bs where bs: "length bs = length cs"
      "\<forall>i<length cs. (cs ! i, fst (bs ! i), snd (bs ! i)) \<in> set fs \<and> fst (bs ! i) < snd (bs ! i)"
      "cs \<noteq> [] \<longrightarrow> fst (bs ! 0) = d"
      "\<forall>i. Suc i < length cs \<longrightarrow> fst (bs ! Suc i) = snd (bs ! i) + 1"
    by blast
  have k: "(k, c, d - 1) \<in> set es" "c < d - 1" using euler_counter(1)[OF b] by auto
  let ?bs = "(c, d - 1) # bs"
  have "length ?bs = length (k # cs)" using bs(1) by simp
  moreover have "\<forall>i<length (k # cs). ((k # cs) ! i, fst (?bs ! i), snd (?bs ! i)) \<in> set as
                    \<and> fst (?bs ! i) < snd (?bs ! i)"
    using bs(2) k as by (auto simp: nth_Cons split: nat.splits)
  moreover have "fst (?bs ! 0) = c" by simp
  moreover have "\<forall>i. Suc i < length (k # cs) \<longrightarrow> fst (?bs ! Suc i) = snd (?bs ! i) + 1"
    using bs(3,4) by (auto simp: nth_Cons split: nat.splits)
  ultimately show ?case by blast
qed

lemma intervals_ordered:
  fixes bs :: "(int \<times> int) list"
  assumes "\<forall>i<length bs. fst (bs ! i) < snd (bs ! i)"
    and "\<forall>i. Suc i < length bs \<longrightarrow> fst (bs ! Suc i) = snd (bs ! i) + 1"
  shows "i < j \<Longrightarrow> j < length bs \<Longrightarrow> snd (bs ! i) < fst (bs ! j)"
proof (induction j)
  case 0
  then show ?case by simp
next
  case (Suc j)
  show ?case
  proof (cases "i = j")
    case True
    then show ?thesis using assms(2) Suc.prems by simp
  next
    case False
    then have "snd (bs ! i) < fst (bs ! j)" using Suc by simp
    moreover have "fst (bs ! j) < snd (bs ! j)" using assms(1) Suc.prems by simp
    moreover have "fst (bs ! Suc j) = snd (bs ! j) + 1" using assms(2) Suc.prems by simp
    ultimately show ?thesis by simp
  qed
qed

lemma rebuild_forest: "rebuild_tree 5 1 forest = Some forest_rebuilt"
  by code_simp

text \<open>
  Claim C2, as stated, fails on the order of the children. In \<open>forest\<close> the root R1 has
  the children b and a, stored in this order; the query for the children has no ORDER BY,
  and b is numbered (2,3) before a (4,5), although a comes first lexicographically.
\<close>

theorem rebuild_children_in_storage_order:
  "rebuild_tree 5 1
     [fixture_row ''R2'' None 0 0, fixture_row ''b'' (Some ''R1'') 0 0,
      fixture_row ''R1'' (Some []) 0 0, fixture_row ''a'' (Some ''R1'') 0 0,
      fixture_row ''y'' (Some ''R2'') 0 0]
   = Some
     [\<lparr>name = ''R2'', parent = None, old_parent = None, lft = 7, rgt = 10, modified = 1\<rparr>,
      \<lparr>name = ''b'', parent = Some ''R1'', old_parent = Some ''R1'', lft = 2, rgt = 3, modified = 1\<rparr>,
      \<lparr>name = ''R1'', parent = Some [], old_parent = Some [], lft = 1, rgt = 6, modified = 1\<rparr>,
      \<lparr>name = ''a'', parent = Some ''R1'', old_parent = Some ''R1'', lft = 4, rgt = 5, modified = 1\<rparr>,
      \<lparr>name = ''y'', parent = Some ''R2'', old_parent = Some ''R2'', lft = 8, rgt = 9, modified = 1\<rparr>]
   \<and> (''a'' :: string) < ''b''"
  by code_simp

text \<open>
  Claim C2, amended. The keys are distinct, none is empty, and the recursion may nest as
  deep as the table is long. Then \<^verbatim>\<open>rebuild_tree\<close> returns, and the table it returns is
  the one obtained by writing the assignments of the numbering of section 4.4
  (\<open>euler_children\<close>: left is the counter on entry, right the counter after the
  children), started with the counter at 1 on the roots in lexicographic order of their
  keys, with the children of a node taken in the order in which the store enumerates
  them. Every assigned node ends with exactly the bounds it was assigned. The first root
  has left bound 1, every root has \<open>lft < rgt\<close>, each further root starts right after the
  previous one ends, so the roots have disjoint ranges in the order of enumeration.
\<close>

theorem rebuild_tree_euler_tour:
  assumes "distinct (map name db)" "[] \<notin> set (map name db)" "length db \<le> fuel"
    and roots: "roots = map name (sort_key name (sql_select (\<lambda>x. parent x = Some [] \<or> parent x = None) db))"
  shows "\<exists>as c db'.
       euler_children fuel db roots 1 = Some (as, c)
     \<and> rebuild_tree fuel t db = Some db' \<and> db' = assign t as db
     \<and> sorted roots
     \<and> (\<forall>(k, l, r)\<in>set as. \<forall>x\<in>set db'. name x = k \<longrightarrow> lft x = l \<and> rgt x = r)
     \<and> (\<forall>x\<in>set db'. roots \<noteq> [] \<and> name x = roots ! 0 \<longrightarrow> lft x = 1)
     \<and> (\<forall>i<length roots. \<forall>x\<in>set db'. name x = roots ! i \<longrightarrow> lft x < rgt x)
     \<and> (\<forall>i. Suc i < length roots \<longrightarrow>
          (\<forall>x\<in>set db'. \<forall>y\<in>set db'. name x = roots ! i \<and> name y = roots ! Suc i \<longrightarrow> lft y = rgt x + 1))
     \<and> (\<forall>i j. i < j \<and> j < length roots \<longrightarrow>
          (\<forall>x\<in>set db'. \<forall>y\<in>set db'. name x = roots ! i \<and> name y = roots ! j \<longrightarrow> rgt x < lft y))"
proof -
  have wf: "wf_names db" using assms(1,2) by (simp add: wf_names_def)
  have rrows: "\<forall>r\<in>set roots. \<exists>x\<in>set db. name x = r \<and> is_root x"
    by (auto simp: roots sql_select_def is_root_def)
  have droots: "distinct roots"
    using children_distinct[OF assms(1), of "\<lambda>x. parent x = Some [] \<or> parent x = None"]
    unfolding roots by (simp add: distinct_map)
  obtain as c where e: "euler_children fuel db roots 1 = Some (as, c)"
    using euler_roots_total[OF wf assms(3) rrows, of 1] by auto
  define db' where "db' = assign t as db"
  have rb: "rebuild_tree fuel t db = Some db'"
    using e by (simp add: rebuild_tree_euler roots[symmetric] db'_def)
  have das: "distinct (map fst as)" by (rule roots_trace_distinct[OF wf droots rrows e])
  have agree: "lft x = l \<and> rgt x = r" if h: "(k, l, r) \<in> set as" "x \<in> set db'" "name x = k" for k l r x
  proof -
    obtain x0 where x0: "x = arow t as x0" using h(2) by (auto simp: db'_def assign_arow)
    then have "(name x0, l, r) \<in> set as" using h(1,3) by simp
    then show ?thesis using arow_agrees[OF das] x0 by blast
  qed
  obtain bs where bs: "length bs = length roots"
      "\<forall>i<length roots. (roots ! i, fst (bs ! i), snd (bs ! i)) \<in> set as \<and> fst (bs ! i) < snd (bs ! i)"
      "roots \<noteq> [] \<longrightarrow> fst (bs ! 0) = 1"
      "\<forall>i. Suc i < length roots \<longrightarrow> fst (bs ! Suc i) = snd (bs ! i) + 1"
    using euler_children_intervals[OF e] by blast
  have at: "lft x = fst (bs ! i) \<and> rgt x = snd (bs ! i)"
    if "i < length roots" "x \<in> set db'" "name x = roots ! i" for i x
    using agree[OF _ that(2,3)] bs(2) that(1) by blast
  have ord: "snd (bs ! i) < fst (bs ! j)" if "i < j" "j < length roots" for i j
    using intervals_ordered[of bs i j] bs that by simp
  have "sorted roots" unfolding roots by simp
  moreover have "\<forall>(k, l, r)\<in>set as. \<forall>x\<in>set db'. name x = k \<longrightarrow> lft x = l \<and> rgt x = r"
    using agree by blast
  moreover have "\<forall>x\<in>set db'. roots \<noteq> [] \<and> name x = roots ! 0 \<longrightarrow> lft x = 1"
    using at[of 0] bs(3) by auto
  moreover have "\<forall>i<length roots. \<forall>x\<in>set db'. name x = roots ! i \<longrightarrow> lft x < rgt x"
    using at bs(2) by simp
  moreover have "\<forall>i. Suc i < length roots \<longrightarrow>
          (\<forall>x\<in>set db'. \<forall>y\<in>set db'. name x = roots ! i \<and> name y = roots ! Suc i \<longrightarrow> lft y = rgt x + 1)"
  proof (intro allI impI ballI)
    fix i x y
    assume i: "Suc i < length roots" and x: "x \<in> set db'" and y: "y \<in> set db'"
      and n: "name x = roots ! i \<and> name y = roots ! Suc i"
    have "rgt x = snd (bs ! i)" using at[of i x] i x n by simp
    moreover have "lft y = fst (bs ! Suc i)" using at[of "Suc i" y] i y n by simp
    ultimately show "lft y = rgt x + 1" using bs(4) i by simp
  qed
  moreover have "\<forall>i j. i < j \<and> j < length roots \<longrightarrow>
          (\<forall>x\<in>set db'. \<forall>y\<in>set db'. name x = roots ! i \<and> name y = roots ! j \<longrightarrow> rgt x < lft y)"
  proof (intro allI impI ballI)
    fix i j x y
    assume ij: "i < j \<and> j < length roots" and x: "x \<in> set db'" and y: "y \<in> set db'"
      and n: "name x = roots ! i \<and> name y = roots ! j"
    have "rgt x = snd (bs ! i)" using at[of i x] ij x n by simp
    moreover have "lft y = fst (bs ! j)" using at[of j y] ij y n by simp
    ultimately show "rgt x < lft y" using ord[of i j] ij by simp
  qed
  ultimately show ?thesis
    by (intro exI[of _ as] exI[of _ c] exI[of _ db']) (simp add: e rb db'_def)
qed

theorem rebuild_tree_euler_tour_witness:
  "rebuild_tree 5 1 forest = Some forest_rebuilt
   \<and> lft (forest_rebuilt ! 2) = 1
   \<and> lft (forest_rebuilt ! 2) < rgt (forest_rebuilt ! 2)
   \<and> lft (forest_rebuilt ! 0) = rgt (forest_rebuilt ! 2) + 1"
proof -
  have a: "distinct (map name forest)" by code_simp
  have b: "[] \<notin> set (map name forest)" by code_simp
  have c: "length forest \<le> 5" by code_simp
  have r: "[''R1'', ''R2''] =
             map name (sort_key name (sql_select (\<lambda>x. parent x = Some [] \<or> parent x = None) forest))"
    by code_simp
  from rebuild_tree_euler_tour[OF a b c r, of 1] obtain as c' db' where
    rb: "rebuild_tree 5 1 forest = Some db'"
    and first: "\<forall>x\<in>set db'. [''R1'', ''R2''] \<noteq> [] \<and> name x = [''R1'', ''R2''] ! 0 \<longrightarrow> lft x = 1"
    and pos: "\<forall>i<length [''R1'', ''R2'']. \<forall>x\<in>set db'. name x = [''R1'', ''R2''] ! i \<longrightarrow> lft x < rgt x"
    and nxt: "\<forall>i. Suc i < length [''R1'', ''R2''] \<longrightarrow>
          (\<forall>x\<in>set db'. \<forall>y\<in>set db'. name x = [''R1'', ''R2''] ! i \<and> name y = [''R1'', ''R2''] ! Suc i
              \<longrightarrow> lft y = rgt x + 1)"
    by (elim exE conjE)
  have db': "db' = forest_rebuilt" using rb rebuild_forest by simp
  have m: "forest_rebuilt ! 2 \<in> set forest_rebuilt" "forest_rebuilt ! 0 \<in> set forest_rebuilt"
    "name (forest_rebuilt ! 2) = ''R1''" "name (forest_rebuilt ! 0) = ''R2''"
    by code_simp+
  have "lft (forest_rebuilt ! 2) = 1"
    using first[unfolded db', rule_format, of "forest_rebuilt ! 2"] m by simp
  moreover have "lft (forest_rebuilt ! 2) < rgt (forest_rebuilt ! 2)"
    using pos[unfolded db', rule_format, of 0 "forest_rebuilt ! 2"] m by simp
  moreover have "lft (forest_rebuilt ! 0) = rgt (forest_rebuilt ! 2) + 1"
    using nxt[unfolded db', rule_format, of 0 "forest_rebuilt ! 2" "forest_rebuilt ! 0"] m by simp
  ultimately show ?thesis using rebuild_forest by simp
qed

text \<open>
  Claim C7. If a rebuild returns, a second rebuild of the table it returned, with the
  same limit on the recursion and at any time, returns as well, and every row has the same
  key and the same \<open>(lft, rgt)\<close> as after the first. A rebuild does return when the keys
  are distinct, none is empty, and the recursion may nest as deep as the table is long.
\<close>

theorem rebuild_tree_round_trip:
  "(rebuild_tree fuel t db = Some db1 \<longrightarrow>
      (\<exists>db2. rebuild_tree fuel t' db1 = Some db2
          \<and> map (\<lambda>x. (name x, lft x, rgt x)) db2 = map (\<lambda>x. (name x, lft x, rgt x)) db1))
   \<and> (distinct (map name db) \<and> [] \<notin> set (map name db) \<and> length db \<le> fuel \<longrightarrow>
        (\<exists>db1. rebuild_tree fuel t db = Some db1))"
proof (intro conjI impI)
  assume "rebuild_tree fuel t db = Some db1"
  then show "\<exists>db2. rebuild_tree fuel t' db1 = Some db2
          \<and> map (\<lambda>x. (name x, lft x, rgt x)) db2 = map (\<lambda>x. (name x, lft x, rgt x)) db1"
    by (rule rebuild_tree_idem)
next
  assume a: "distinct (map name db) \<and> [] \<notin> set (map name db) \<and> length db \<le> fuel"
  then have wf: "wf_names db" by (simp add: wf_names_def)
  have "euler_children fuel db
          (map name (sort_key name (sql_select (\<lambda>x. parent x = Some [] \<or> parent x = None) db))) 1 \<noteq> None"
    using a by (intro euler_roots_total[OF wf]) (auto simp: sql_select_def is_root_def)
  then show "\<exists>db1. rebuild_tree fuel t db = Some db1"
    by (auto simp: rebuild_tree_euler)
qed

theorem rebuild_tree_round_trip_witness:
  "(\<exists>db2. rebuild_tree 5 2 forest_rebuilt = Some db2
       \<and> map (\<lambda>x. (name x, lft x, rgt x)) db2 = map (\<lambda>x. (name x, lft x, rgt x)) forest_rebuilt)
   \<and> (\<exists>db1. rebuild_tree 5 1 forest = Some db1)"
proof -
  have a: "distinct (map name forest) \<and> [] \<notin> set (map name forest) \<and> length forest \<le> 5"
    by code_simp
  show ?thesis
    using rebuild_tree_round_trip[of 5 1 forest forest_rebuilt 2, THEN conjunct1, rule_format, OF rebuild_forest]
      rebuild_tree_round_trip[of 5 1 forest forest_rebuilt 2, THEN conjunct2, rule_format, OF a]
    by (intro conjI)
qed

end
